theory Spec2Isabelle
  imports Main "HOL-Library.Word" "HOL-Library.Multiset"
begin

section \<open>Outcomes\<close>

text \<open>
  The program is C++ (\<^verbatim>\<open>thin-provisioning/thin_ls.cc\<close>). A call either returns a
  value or does not: it throws \<^verbatim>\<open>std::runtime_error\<close> with a message, it indexes a
  vector beyond its size (undefined behaviour in C++), or it loops for ever. The three
  ways of not returning are the constructors of \<open>error\<close>; a result is \<open>error + 'a\<close>.
  Integer widths are those of an LP64 platform: \<^verbatim>\<open>unsigned\<close> has 32 bits,
  \<^verbatim>\<open>uint64_t\<close> and \<^verbatim>\<open>size_t\<close> have 64.
\<close>

datatype error =
    Runtime_Error string
  | Out_Of_Range
  | Non_Termination

type_synonym block_address = "64 word"

section \<open>The class \<^verbatim>\<open>mapping_set\<close>\<close>

datatype block_state = UNMAPPED | EXCLUSIVE | SHARED

text \<open>The only member is \<^verbatim>\<open>mutable vector<bool> bits_\<close>.\<close>

type_synonym mapping_set = "bool list"

text \<open>The constructor: \<^verbatim>\<open>bits_(10240, false)\<close>.\<close>

definition mapping_set_init :: mapping_set where
  "mapping_set_init = replicate 10240 False"

text \<open>
  The loop of \<^verbatim>\<open>ensure_size\<close>: \<^verbatim>\<open>while (new_size < bit) new_size *= 2;\<close> where
  \<^verbatim>\<open>new_size\<close> is \<^verbatim>\<open>unsigned\<close> and \<^verbatim>\<open>bit\<close> is \<^verbatim>\<open>uint64_t\<close>: the
  comparison converts \<^verbatim>\<open>new_size\<close> to 64 bits, the multiplication wraps at 32.
  \<open>None\<close> is a loop that never exits.
\<close>

partial_function (option) ensure_size_loop :: "32 word \<Rightarrow> 64 word \<Rightarrow> 32 word option" where
  "ensure_size_loop new_size idx =
     (if ucast new_size < idx then ensure_size_loop (new_size * 2) idx else Some new_size)"

text \<open>\<^verbatim>\<open>vector<bool>::resize(n, false)\<close>: truncates or pads with \<^verbatim>\<open>false\<close>.\<close>

definition resize :: "nat \<Rightarrow> bool list \<Rightarrow> bool list" where
  "resize n xs = take n xs @ replicate (n - length xs) False"

text \<open>
  \<^verbatim>\<open>ensure_size\<close>. The initial value of \<^verbatim>\<open>new_size\<close> is \<^verbatim>\<open>bits_.size() * 2\<close>
  converted to \<^verbatim>\<open>unsigned\<close>.
\<close>

definition ensure_size :: "mapping_set \<Rightarrow> 64 word \<Rightarrow> error + mapping_set" where
  "ensure_size bits idx =
     (if length bits \<le> unat idx then
        (case ensure_size_loop (of_nat (length bits * 2)) idx of
           None \<Rightarrow> Inl Non_Termination
         | Some new_size \<Rightarrow> Inr (resize (unat new_size) bits))
      else Inr bits)"

text \<open>
  \<^verbatim>\<open>get_bit\<close> and \<^verbatim>\<open>set_bit\<close>: \<^verbatim>\<open>bits_[bit]\<close> does not check its index, so an
  index at or beyond the size is the error \<open>Out_Of_Range\<close>. Both return the vector,
  which \<^verbatim>\<open>ensure_size\<close> may have grown (\<^verbatim>\<open>bits_\<close> is \<^verbatim>\<open>mutable\<close>).
\<close>

definition get_bit :: "mapping_set \<Rightarrow> 64 word \<Rightarrow> error + (bool \<times> mapping_set)" where
  "get_bit bits idx =
     (case ensure_size bits idx of
        Inl e \<Rightarrow> Inl e
      | Inr bits' \<Rightarrow>
          if unat idx < length bits' then Inr (bits' ! unat idx, bits') else Inl Out_Of_Range)"

definition set_bit_ms :: "mapping_set \<Rightarrow> 64 word \<Rightarrow> bool \<Rightarrow> error + mapping_set" where
  "set_bit_ms bits idx v =
     (case ensure_size bits idx of
        Inl e \<Rightarrow> Inl e
      | Inr bits' \<Rightarrow>
          if unat idx < length bits' then Inr (bits'[unat idx := v]) else Inl Out_Of_Range)"

definition inc :: "mapping_set \<Rightarrow> block_address \<Rightarrow> error + mapping_set" where
  "inc bits b =
     (case get_bit bits (b * 2) of
        Inl e \<Rightarrow> Inl e
      | Inr (seen, bits') \<Rightarrow>
          if seen then set_bit_ms bits' (b * 2 + 1) True
          else set_bit_ms bits' (b * 2) True)"

definition get_state :: "mapping_set \<Rightarrow> block_address \<Rightarrow> error + (block_state \<times> mapping_set)" where
  "get_state bits b =
     (case get_bit bits (b * 2) of
        Inl e \<Rightarrow> Inl e
      | Inr (seen, bits') \<Rightarrow>
          if seen then
            (case get_bit bits' (b * 2 + 1) of
               Inl e \<Rightarrow> Inl e
             | Inr (shared, bits'') \<Rightarrow>
                 if shared then Inr (SHARED, bits'') else Inr (EXCLUSIVE, bits''))
          else Inr (UNMAPPED, bits'))"

section \<open>Output fields\<close>

text \<open>
  The enum \<^verbatim>\<open>output_field\<close>. Its last two size fields are \<^verbatim>\<open>EXCLUSIVE\<close> and
  \<^verbatim>\<open>SHARED\<close> in the source; they carry the suffix \<open>_FIELD\<close> here, the names
  being taken by \<open>block_state\<close>.
\<close>

datatype output_field =
    DEV_ID
  | MAPPED_BLOCKS
  | EXCLUSIVE_BLOCKS
  | SHARED_BLOCKS
  | MAPPED_SECTORS
  | EXCLUSIVE_SECTORS
  | SHARED_SECTORS
  | MAPPED_BYTES
  | EXCLUSIVE_BYTES
  | SHARED_BYTES
  | MAPPED
  | EXCLUSIVE_FIELD
  | SHARED_FIELD
  | TRANSACTION_ID
  | CREATION_TIME
  | SNAPSHOT_TIME

text \<open>\<^verbatim>\<open>field_to_string\<close>: the table \<^verbatim>\<open>field_names\<close> indexed by the field.\<close>

fun field_to_string :: "output_field \<Rightarrow> string" where
  "field_to_string DEV_ID = ''DEV''"
| "field_to_string MAPPED_BLOCKS = ''MAPPED_BLOCKS''"
| "field_to_string EXCLUSIVE_BLOCKS = ''EXCLUSIVE_BLOCKS''"
| "field_to_string SHARED_BLOCKS = ''SHARED_BLOCKS''"
| "field_to_string MAPPED_SECTORS = ''MAPPED_SECTORS''"
| "field_to_string EXCLUSIVE_SECTORS = ''EXCLUSIVE_SECTORS''"
| "field_to_string SHARED_SECTORS = ''SHARED_SECTORS''"
| "field_to_string MAPPED_BYTES = ''MAPPED_BYTES''"
| "field_to_string EXCLUSIVE_BYTES = ''EXCLUSIVE_BYTES''"
| "field_to_string SHARED_BYTES = ''SHARED_BYTES''"
| "field_to_string MAPPED = ''MAPPED''"
| "field_to_string EXCLUSIVE_FIELD = ''EXCLUSIVE''"
| "field_to_string SHARED_FIELD = ''SHARED''"
| "field_to_string TRANSACTION_ID = ''TRANSACTION''"
| "field_to_string CREATION_TIME = ''CREATE_TIME''"
| "field_to_string SNAPSHOT_TIME = ''SNAP_TIME''"

text \<open>
  A cell of the \<^verbatim>\<open>grid_layout\<close>. The grid and the unit conversions live in other
  files, so a cell records the number handed over and the conversion applied to it:
  \<open>Number v\<close> is \<^verbatim>\<open>grid.field(v)\<close>, \<open>Sector_bytes v\<close> is
  \<^verbatim>\<open>grid.field(v * disk_unit_multiplier(UNIT_SECTOR))\<close>, \<open>Disk_unit v\<close> is
  \<^verbatim>\<open>grid.field(format_disk_unit(v, UNIT_SECTOR))\<close> and \<open>Text s\<close> is a string field.
\<close>

datatype cell =
    Number "64 word"
  | Sector_bytes "64 word"
  | Disk_unit "64 word"
  | Text string

type_synonym row = "cell list"

definition print_headers :: "output_field list \<Rightarrow> row" where
  "print_headers fields = map (\<lambda>f. Text (field_to_string f)) fields"

record flags =
  use_metadata_snap :: bool
  headers :: bool
  field_list :: "output_field list"

text \<open>
  The member \<^verbatim>\<open>fields\<close> is \<open>field_list\<close> (the record package uses the name
  \<open>fields\<close> itself). The constructor of \<^verbatim>\<open>struct flags\<close>:
\<close>

definition flags_init :: flags where
  "flags_init =
     \<lparr>use_metadata_snap = False, headers = True,
      field_list = [DEV_ID, MAPPED, CREATION_TIME, SNAPSHOT_TIME]\<rparr>"

section \<open>The metadata as the tree walkers deliver it\<close>

text \<open>
  Modelled from the spec: the struct \<^verbatim>\<open>device_tree_detail::device_details\<close> is
  declared in a header that is not part of the source file. The record has the four
  attributes that the file reads, each an unsigned 64-bit number.
\<close>

record device_details =
  mapped_blocks :: "64 word"
  transaction_id :: "64 word"
  creation_time :: "64 word"
  snapshotted_time :: "64 word"

text \<open>
  Modelled from the spec: the damage classes \<^verbatim>\<open>missing_devices\<close> and
  \<^verbatim>\<open>missing_mappings\<close> of the two tree walkers are declared elsewhere. A damage
  notification is tagged with its kind and carries a description.
\<close>

datatype damage =
    missing_devices string
  | missing_mappings string

text \<open>
  Modelled from the spec: \<^verbatim>\<open>walk_mapping_tree\<close> and \<^verbatim>\<open>walk_device_tree\<close> are
  defined in other files. A walk delivers a finite sequence of events to the two
  visitors it is given: a leaf entry goes to the value visitor, a damage notification to
  the damage visitor; an exception thrown by a visitor ends the walk. The value of a
  mapping leaf is \<^verbatim>\<open>block_time\<close> (\<^verbatim>\<open>block_\<close> and \<^verbatim>\<open>time_\<close>), reached by a
  \<^verbatim>\<open>btree_path\<close>; a device leaf is a device id with its details.
\<close>

record block_time =
  block :: block_address
  time :: "32 word"

type_synonym btree_path = "64 word list"

datatype mapping_event =
    Mapping_leaf btree_path block_time
  | Mapping_damage damage

datatype device_event =
    Device_leaf block_address device_details
  | Device_damage damage

fun walk_mapping_tree ::
  "mapping_event list \<Rightarrow> (btree_path \<Rightarrow> block_time \<Rightarrow> 's \<Rightarrow> error + 's) \<Rightarrow>
   (damage \<Rightarrow> error + unit) \<Rightarrow> 's \<Rightarrow> error + 's" where
  "walk_mapping_tree [] v dv s = Inr s"
| "walk_mapping_tree (Mapping_leaf path bt # es) v dv s =
     (case v path bt s of
        Inl e \<Rightarrow> Inl e
      | Inr s' \<Rightarrow> walk_mapping_tree es v dv s')"
| "walk_mapping_tree (Mapping_damage d # es) v dv s =
     (case dv d of
        Inl e \<Rightarrow> Inl e
      | Inr _ \<Rightarrow> walk_mapping_tree es v dv s)"

fun walk_device_tree ::
  "device_event list \<Rightarrow> (block_address \<Rightarrow> device_details \<Rightarrow> 's \<Rightarrow> error + 's) \<Rightarrow>
   (damage \<Rightarrow> error + unit) \<Rightarrow> 's \<Rightarrow> error + 's" where
  "walk_device_tree [] v dv s = Inr s"
| "walk_device_tree (Device_leaf dev_id dd # es) v dv s =
     (case v dev_id dd s of
        Inl e \<Rightarrow> Inl e
      | Inr s' \<Rightarrow> walk_device_tree es v dv s')"
| "walk_device_tree (Device_damage d # es) v dv s =
     (case dv d of
        Inl e \<Rightarrow> Inl e
      | Inr _ \<Rightarrow> walk_device_tree es v dv s)"

text \<open>
  What the file reads of \<^verbatim>\<open>metadata\<close>: the superblock's \<^verbatim>\<open>data_block_size_\<close>, the
  device tree \<^verbatim>\<open>details_\<close> (as the events its walk delivers), the lookup of
  \<^verbatim>\<open>mappings_top_level_\<close> and, for a root block, the mapping tree found there (as the
  events its walk delivers).
\<close>

record metadata =
  data_block_size :: "64 word"
  details :: "device_event list"
  mappings_top_level :: "block_address \<Rightarrow> 64 word option"
  single_mapping_tree :: "64 word \<Rightarrow> mapping_event list"

section \<open>The two passes\<close>

text \<open>\<^verbatim>\<open>mapping_pass1::visit\<close>.\<close>

definition mapping_pass1_visit :: "btree_path \<Rightarrow> block_time \<Rightarrow> mapping_set \<Rightarrow> error + mapping_set" where
  "mapping_pass1_visit path bt mappings = inc mappings (block bt)"

text \<open>
  \<^verbatim>\<open>mapping_pass2::visit\<close>. The visitor holds the set by const reference and the counter
  \<^verbatim>\<open>exclusives_\<close>; \<^verbatim>\<open>get_state\<close> may grow the set.
\<close>

definition mapping_pass2_visit ::
  "btree_path \<Rightarrow> block_time \<Rightarrow> mapping_set \<times> block_address \<Rightarrow> error + (mapping_set \<times> block_address)" where
  "mapping_pass2_visit path bt s =
     (case get_state (fst s) (block bt) of
        Inl e \<Rightarrow> Inl e
      | Inr (st, mappings') \<Rightarrow>
          Inr (mappings', if st = EXCLUSIVE then snd s + 1 else snd s))"

definition metadata_damage_message :: string where
  "metadata_damage_message = ''metadata contains errors (run thin_check for details).''"

definition missing_root_message :: string where
  "missing_root_message = ''couldn'' @ [CHR 0x27] @ ''t find mapping tree root''"

definition raise_metadata_damage :: "error + unit" where
  "raise_metadata_damage = Inl (Runtime_Error metadata_damage_message)"

text \<open>\<^verbatim>\<open>fatal_mapping_damage::visit\<close>, one overload for each kind.\<close>

fun fatal_mapping_damage_visit :: "damage \<Rightarrow> error + unit" where
  "fatal_mapping_damage_visit (missing_devices d) = raise_metadata_damage"
| "fatal_mapping_damage_visit (missing_mappings d) = raise_metadata_damage"

definition pass1 :: "metadata \<Rightarrow> mapping_set \<Rightarrow> block_address \<Rightarrow> error + mapping_set" where
  "pass1 md mappings dev_id =
     (case mappings_top_level md dev_id of
        None \<Rightarrow> Inl (Runtime_Error missing_root_message)
      | Some dev_root \<Rightarrow>
          walk_mapping_tree (single_mapping_tree md dev_root)
            mapping_pass1_visit fatal_mapping_damage_visit mappings)"

definition count_exclusives ::
  "metadata \<Rightarrow> mapping_set \<Rightarrow> block_address \<Rightarrow> error + (block_address \<times> mapping_set)" where
  "count_exclusives md mappings dev_id =
     (case mappings_top_level md dev_id of
        None \<Rightarrow> Inl (Runtime_Error missing_root_message)
      | Some dev_root \<Rightarrow>
          (case walk_mapping_tree (single_mapping_tree md dev_root)
                  mapping_pass2_visit fatal_mapping_damage_visit (mappings, 0) of
             Inl e \<Rightarrow> Inl e
           | Inr (mappings', exclusives) \<Rightarrow> Inr (exclusives, mappings')))"

section \<open>The device catalogue\<close>

text \<open>
  \<^verbatim>\<open>dd_map\<close> is a \<^verbatim>\<open>std::map\<close>: it is iterated in ascending key order, and
  \<^verbatim>\<open>insert\<close> leaves the map as it is when the key is present. It is the list of
  its entries in iteration order.
\<close>

type_synonym dd_map = "(block_address \<times> device_details) list"

fun dd_insert :: "block_address \<Rightarrow> device_details \<Rightarrow> dd_map \<Rightarrow> dd_map" where
  "dd_insert k v [] = [(k, v)]"
| "dd_insert k v ((k', v') # m) =
     (if k < k' then (k, v) # (k', v') # m
      else if k = k' then (k', v') # m
      else (k', v') # dd_insert k v m)"

text \<open>\<^verbatim>\<open>details_extractor::visit\<close> and \<^verbatim>\<open>fatal_details_damage::visit\<close>.\<close>

definition details_extractor_visit ::
  "block_address \<Rightarrow> device_details \<Rightarrow> dd_map \<Rightarrow> error + dd_map" where
  "details_extractor_visit dev_id dd m = Inr (dd_insert dev_id dd m)"

fun fatal_details_damage_visit :: "damage \<Rightarrow> error + unit" where
  "fatal_details_damage_visit (missing_devices d) = raise_metadata_damage"
| "fatal_details_damage_visit (missing_mappings d) = raise_metadata_damage"

section \<open>The report\<close>

fun pass1_needed :: "output_field list \<Rightarrow> bool" where
  "pass1_needed [] = False"
| "pass1_needed (f # fs) =
     (if f = EXCLUSIVE_BLOCKS \<or> f = SHARED_BLOCKS \<or>
         f = EXCLUSIVE_SECTORS \<or> f = SHARED_SECTORS \<or>
         f = EXCLUSIVE_BYTES \<or> f = SHARED_BYTES \<or>
         f = EXCLUSIVE_FIELD \<or> f = SHARED_FIELD
      then True
      else pass1_needed fs)"

text \<open>The \<^verbatim>\<open>switch\<close> of \<^verbatim>\<open>ls_\<close>: the cell of one field of one device.\<close>

fun emit_field ::
  "output_field \<Rightarrow> 64 word \<Rightarrow> block_address \<Rightarrow> device_details \<Rightarrow> block_address \<Rightarrow> cell" where
  "emit_field DEV_ID block_size dev dd exclusive = Number dev"
| "emit_field MAPPED_BLOCKS block_size dev dd exclusive = Number (mapped_blocks dd)"
| "emit_field EXCLUSIVE_BLOCKS block_size dev dd exclusive = Number exclusive"
| "emit_field SHARED_BLOCKS block_size dev dd exclusive = Number (mapped_blocks dd - exclusive)"
| "emit_field MAPPED_SECTORS block_size dev dd exclusive = Number (mapped_blocks dd * block_size)"
| "emit_field EXCLUSIVE_SECTORS block_size dev dd exclusive = Number (exclusive * block_size)"
| "emit_field SHARED_SECTORS block_size dev dd exclusive =
     Number ((mapped_blocks dd - exclusive) * block_size)"
| "emit_field MAPPED_BYTES block_size dev dd exclusive =
     Sector_bytes (mapped_blocks dd * block_size)"
| "emit_field EXCLUSIVE_BYTES block_size dev dd exclusive = Sector_bytes (exclusive * block_size)"
| "emit_field SHARED_BYTES block_size dev dd exclusive =
     Sector_bytes ((mapped_blocks dd - exclusive) * block_size)"
| "emit_field MAPPED block_size dev dd exclusive = Disk_unit (mapped_blocks dd * block_size)"
| "emit_field EXCLUSIVE_FIELD block_size dev dd exclusive = Disk_unit (exclusive * block_size)"
| "emit_field SHARED_FIELD block_size dev dd exclusive =
     Disk_unit ((mapped_blocks dd - exclusive) * block_size)"
| "emit_field TRANSACTION_ID block_size dev dd exclusive = Number (transaction_id dd)"
| "emit_field CREATION_TIME block_size dev dd exclusive = Number (creation_time dd)"
| "emit_field SNAPSHOT_TIME block_size dev dd exclusive = Number (snapshotted_time dd)"

text \<open>The first loop of \<^verbatim>\<open>ls_\<close> over the map: \<^verbatim>\<open>pass1\<close> for every device.\<close>

fun pass1_loop :: "metadata \<Rightarrow> mapping_set \<Rightarrow> dd_map \<Rightarrow> error + mapping_set" where
  "pass1_loop md mappings [] = Inr mappings"
| "pass1_loop md mappings ((dev, dd) # m) =
     (case pass1 md mappings dev of
        Inl e \<Rightarrow> Inl e
      | Inr mappings' \<Rightarrow> pass1_loop md mappings' m)"

text \<open>
  The second loop of \<^verbatim>\<open>ls_\<close> over the map: one row for every device. The rows are
  collected in the grid; nothing is written before the loop has ended.
\<close>

fun report_loop ::
  "metadata \<Rightarrow> flags \<Rightarrow> bool \<Rightarrow> mapping_set \<Rightarrow> dd_map \<Rightarrow> error + row list" where
  "report_loop md fl some_exclusive_fields mappings [] = Inr []"
| "report_loop md fl some_exclusive_fields mappings ((dev, dd) # m) =
     (case (if some_exclusive_fields then count_exclusives md mappings dev
            else Inr (0, mappings)) of
        Inl e \<Rightarrow> Inl e
      | Inr (exclusive, mappings') \<Rightarrow>
          (case report_loop md fl some_exclusive_fields mappings' m of
             Inl e \<Rightarrow> Inl e
           | Inr rows \<Rightarrow>
               Inr (map (\<lambda>f. emit_field f (data_block_size md) dev dd exclusive) (field_list fl)
                    # rows)))"

text \<open>
  The body of \<^verbatim>\<open>ls_\<close> after the metadata has been opened, with the local
  \<^verbatim>\<open>some_exclusive_fields\<close> as a parameter. The result is the grid that
  \<^verbatim>\<open>grid.render(out)\<close> writes as the last statement.
\<close>

definition ls_body :: "metadata \<Rightarrow> flags \<Rightarrow> bool \<Rightarrow> error + row list" where
  "ls_body md fl some_exclusive_fields =
     (case walk_device_tree (details md) details_extractor_visit fatal_details_damage_visit [] of
        Inl e \<Rightarrow> Inl e
      | Inr m \<Rightarrow>
          (case (if some_exclusive_fields then pass1_loop md mapping_set_init m
                 else Inr mapping_set_init) of
             Inl e \<Rightarrow> Inl e
           | Inr mappings \<Rightarrow>
               (case report_loop md fl some_exclusive_fields mappings m of
                  Inl e \<Rightarrow> Inl e
                | Inr rows \<Rightarrow>
                    Inr ((if headers fl then [print_headers (field_list fl)] else []) @ rows))))"

text \<open>
  The function \<^verbatim>\<open>ls_\<close> itself (a name cannot end with an underscore here, so it
  is \<open>ls_impl\<close>).
\<close>

definition ls_impl :: "metadata \<Rightarrow> flags \<Rightarrow> error + row list" where
  "ls_impl md fl = ls_body md fl (pass1_needed (field_list fl))"

text \<open>
  \<^verbatim>\<open>ls\<close>: an exception is caught, its message goes to \<^verbatim>\<open>cerr\<close> and the exit code
  is 1. The result is the exit code, what was written to \<^verbatim>\<open>out\<close> and what was
  written to \<^verbatim>\<open>cerr\<close>.
\<close>

record ls_result =
  exit_code :: int
  out :: "row list"
  cerr :: "string list"

definition ls :: "metadata \<Rightarrow> flags \<Rightarrow> error + ls_result" where
  "ls md fl =
     (case ls_impl md fl of
        Inr grid \<Rightarrow> Inr \<lparr>exit_code = 0, out = grid, cerr = []\<rparr>
      | Inl (Runtime_Error what) \<Rightarrow> Inr \<lparr>exit_code = 1, out = [], cerr = [what]\<rparr>
      | Inl Out_Of_Range \<Rightarrow> Inl Out_Of_Range
      | Inl Non_Termination \<Rightarrow> Inl Non_Termination)"

section \<open>Notions used in the statements\<close>

text \<open>
  What the vector says about a bit, with a bit beyond its size read as unset (growth pads
  with \<^verbatim>\<open>false\<close>), and the state that \<^verbatim>\<open>get_state\<close> computes from two such bits.
\<close>

definition bit_at :: "mapping_set \<Rightarrow> nat \<Rightarrow> bool" where
  "bit_at bits i = (i < length bits \<and> bits ! i)"

definition state_of :: "mapping_set \<Rightarrow> block_address \<Rightarrow> block_state" where
  "state_of bits b =
     (if bit_at bits (unat (b * 2)) then
        (if bit_at bits (unat (b * 2 + 1)) then SHARED else EXCLUSIVE)
      else UNMAPPED)"

text \<open>The numeric value of the enum \<^verbatim>\<open>block_state\<close>.\<close>

fun rank :: "block_state \<Rightarrow> nat" where
  "rank UNMAPPED = 0"
| "rank EXCLUSIVE = 1"
| "rank SHARED = 2"

text \<open>
  The sizes the vector can have: 10240 doubled up to 18 times; one more doubling does not
  fit 32 bits.
\<close>

definition capacity_ok :: "mapping_set \<Rightarrow> bool" where
  "capacity_ok bits = (\<exists>k\<le>18. length bits = 10240 * 2 ^ k)"

text \<open>
  The block addresses for which \<^verbatim>\<open>ensure_size\<close> works at every size of the vector:
  below \<open>10240 * 2 ^ 17\<close> and not \<open>10240 * 2 ^ j\<close>.
\<close>

definition safe :: "block_address \<Rightarrow> bool" where
  "safe b = (unat b < 10240 * 2 ^ 17 \<and> (\<forall>j<17. unat b \<noteq> 10240 * 2 ^ j))"

text \<open>The device ids of the leaves that a walk of the device tree delivers.\<close>

fun device_ids :: "device_event list \<Rightarrow> block_address list" where
  "device_ids [] = []"
| "device_ids (Device_leaf dev dd # es) = dev # device_ids es"
| "device_ids (Device_damage d # es) = device_ids es"

text \<open>The fields named in the condition of \<^verbatim>\<open>pass1_needed\<close>.\<close>

definition exclusivity_fields :: "output_field set" where
  "exclusivity_fields =
     {EXCLUSIVE_BLOCKS, SHARED_BLOCKS, EXCLUSIVE_SECTORS, SHARED_SECTORS,
      EXCLUSIVE_BYTES, SHARED_BYTES, EXCLUSIVE_FIELD, SHARED_FIELD}"

text \<open>The header row, if any, and the row of one device given its exclusive count.\<close>

definition header_rows :: "flags \<Rightarrow> row list" where
  "header_rows fl = (if headers fl then [print_headers (field_list fl)] else [])"

definition device_row :: "metadata \<Rightarrow> flags \<Rightarrow> block_address \<Rightarrow> device_details \<Rightarrow> block_address \<Rightarrow> row" where
  "device_row md fl dev dd exclusive =
     map (\<lambda>f. emit_field f (data_block_size md) dev dd exclusive) (field_list fl)"

text \<open>
  The physical blocks of the leaves that a walk of a mapping tree delivers, in order, and
  whether the walk is free of damage notifications.
\<close>

fun leaf_blocks :: "mapping_event list \<Rightarrow> block_address list" where
  "leaf_blocks [] = []"
| "leaf_blocks (Mapping_leaf path bt # es) = block bt # leaf_blocks es"
| "leaf_blocks (Mapping_damage d # es) = leaf_blocks es"

fun damage_free :: "mapping_event list \<Rightarrow> bool" where
  "damage_free [] = True"
| "damage_free (Mapping_leaf path bt # es) = damage_free es"
| "damage_free (Mapping_damage d # es) = False"

text \<open>
  The blocks that \<^verbatim>\<open>pass1\<close> visits for a device, and what stops \<^verbatim>\<open>pass1\<close> and
  \<^verbatim>\<open>count_exclusives\<close> for it, if anything: a missing root or a damage notification.
\<close>

definition device_blocks :: "metadata \<Rightarrow> block_address \<Rightarrow> block_address list" where
  "device_blocks md dev =
     (case mappings_top_level md dev of
        None \<Rightarrow> []
      | Some dev_root \<Rightarrow> leaf_blocks (single_mapping_tree md dev_root))"

definition device_fault :: "metadata \<Rightarrow> block_address \<Rightarrow> error option" where
  "device_fault md dev =
     (case mappings_top_level md dev of
        None \<Rightarrow> Some (Runtime_Error missing_root_message)
      | Some dev_root \<Rightarrow>
          if damage_free (single_mapping_tree md dev_root) then None
          else Some (Runtime_Error metadata_damage_message))"

text \<open>
  The blocks that the first loop visits over the whole map, the number of mapping
  entries among them that reference a block, and the number of devices that reference it.
\<close>

definition visited_blocks :: "metadata \<Rightarrow> dd_map \<Rightarrow> block_address list" where
  "visited_blocks md m = concat (map (\<lambda>(dev, dd). device_blocks md dev) m)"

definition references :: "metadata \<Rightarrow> dd_map \<Rightarrow> block_address \<Rightarrow> nat" where
  "references md m b = count_list (visited_blocks md m) b"

definition referencing_devices :: "metadata \<Rightarrow> dd_map \<Rightarrow> block_address \<Rightarrow> nat" where
  "referencing_devices md m b = length (filter (\<lambda>(dev, dd). b \<in> set (device_blocks md dev)) m)"

text \<open>The state that belongs to a number of references.\<close>

fun classify :: "nat \<Rightarrow> block_state" where
  "classify 0 = UNMAPPED"
| "classify (Suc 0) = EXCLUSIVE"
| "classify (Suc (Suc n)) = SHARED"

text \<open>
  The set records a count for every safe block: the first bit says that the count is at
  least one, the second that it is at least two.
\<close>

definition tracks :: "mapping_set \<Rightarrow> (block_address \<Rightarrow> nat) \<Rightarrow> bool" where
  "tracks t cnt =
     (capacity_ok t \<and>
      (\<forall>c. safe c \<longrightarrow> bit_at t (2 * unat c) = (1 \<le> cnt c)
                      \<and> bit_at t (2 * unat c + 1) = (2 \<le> cnt c)))"

text \<open>
  A device that \<^verbatim>\<open>pass1\<close> can walk to the end: its root is found, its walk has no
  damage and every block it maps is safe.
\<close>

definition walkable :: "metadata \<Rightarrow> block_address \<Rightarrow> bool" where
  "walkable md dev = (device_fault md dev = None \<and> list_all safe (device_blocks md dev))"

text \<open>Every block that a device of the device tree maps is a safe address.\<close>

definition blocks_safe :: "metadata \<Rightarrow> bool" where
  "blocks_safe md = (\<forall>dev\<in>set (device_ids (details md)). list_all safe (device_blocks md dev))"

text \<open>
  The device tree with the mapped-block count of every device replaced by \<open>g\<close> of
  its id, and the same replacement in a map.
\<close>

fun with_mapped_blocks :: "(block_address \<Rightarrow> 64 word) \<Rightarrow> device_event list \<Rightarrow> device_event list" where
  "with_mapped_blocks g [] = []"
| "with_mapped_blocks g (Device_leaf dev dd # es) =
     Device_leaf dev (dd\<lparr>mapped_blocks := g dev\<rparr>) # with_mapped_blocks g es"
| "with_mapped_blocks g (Device_damage d # es) = Device_damage d # with_mapped_blocks g es"

definition recount :: "(block_address \<Rightarrow> 64 word) \<Rightarrow> dd_map \<Rightarrow> dd_map" where
  "recount g m = map (\<lambda>(dev, dd). (dev, dd\<lparr>mapped_blocks := g dev\<rparr>)) m"

text \<open>
  The exclusive count that the report owes a device: the number of its mapping entries
  whose block is referenced by exactly one mapping entry of the whole map.
\<close>

definition exclusive_blocks :: "metadata \<Rightarrow> dd_map \<Rightarrow> block_address \<Rightarrow> block_address" where
  "exclusive_blocks md m dev =
     of_nat (length (filter (\<lambda>b. references md m b = 1) (device_blocks md dev)))"

text \<open>
  A sequence of calls of \<^verbatim>\<open>inc\<close> and \<^verbatim>\<open>get_state\<close> on one set, run in order and
  stopped by the first call that does not return; the same sequence with the calls of
  \<^verbatim>\<open>get_state\<close> left out.
\<close>

datatype tracker_op = Increment block_address | State_query block_address

fun op_block :: "tracker_op \<Rightarrow> block_address" where
  "op_block (Increment b) = b"
| "op_block (State_query b) = b"

fun run_ops :: "mapping_set \<Rightarrow> tracker_op list \<Rightarrow> error + mapping_set" where
  "run_ops t [] = Inr t"
| "run_ops t (Increment b # ops) =
     (case inc t b of
        Inl e \<Rightarrow> Inl e
      | Inr t' \<Rightarrow> run_ops t' ops)"
| "run_ops t (State_query b # ops) =
     (case get_state t b of
        Inl e \<Rightarrow> Inl e
      | Inr (s, t') \<Rightarrow> run_ops t' ops)"

fun increments_only :: "tracker_op list \<Rightarrow> tracker_op list" where
  "increments_only [] = []"
| "increments_only (Increment b # ops) = Increment b # increments_only ops"
| "increments_only (State_query b # ops) = increments_only ops"

text \<open>
  The two bits of a block are within a vector of even size, so that \<^verbatim>\<open>get_state\<close>
  does not resize it.
\<close>

definition queried :: "mapping_set \<Rightarrow> block_address \<Rightarrow> bool" where
  "queried t b = (even (length t) \<and> unat (b * 2) < length t)"

section \<open>A worked example\<close>

text \<open>
  Device 1 maps the physical blocks 1, 2 and 3, device 2 maps 3 and 4; the device tree
  delivers device 2 first.
\<close>

definition mapping :: "64 word \<Rightarrow> block_address \<Rightarrow> mapping_event" where
  "mapping v p = Mapping_leaf [v] \<lparr>block = p, time = 0\<rparr>"

definition example_details_A :: device_details where
  "example_details_A =
     \<lparr>mapped_blocks = 3, transaction_id = 0, creation_time = 0, snapshotted_time = 1\<rparr>"

definition example_details_B :: device_details where
  "example_details_B =
     \<lparr>mapped_blocks = 2, transaction_id = 1, creation_time = 1, snapshotted_time = 1\<rparr>"

definition example_md :: metadata where
  "example_md =
     \<lparr>data_block_size = 128,
      details = [Device_leaf 2 example_details_B, Device_leaf 1 example_details_A],
      mappings_top_level = (\<lambda>dev. if dev = 1 then Some 100 else if dev = 2 then Some 200 else None),
      single_mapping_tree =
        (\<lambda>root. if root = 100 then [mapping 0 1, mapping 1 2, mapping 2 3]
               else if root = 200 then [mapping 0 3, mapping 1 4]
               else [])\<rparr>"

definition block_fields :: flags where
  "block_fields =
     \<lparr>use_metadata_snap = False, headers = False,
      field_list = [DEV_ID, MAPPED_BLOCKS, EXCLUSIVE_BLOCKS, SHARED_BLOCKS]\<rparr>"

definition example_pass1 :: mapping_set where
  "example_pass1 = mapping_set_init[2 := True, 4 := True, 6 := True, 7 := True, 8 := True]"

definition mapped_only :: flags where
  "mapped_only =
     \<lparr>use_metadata_snap = False, headers = True, field_list = [DEV_ID, MAPPED_BLOCKS]\<rparr>"

text \<open>One device with two virtual blocks mapped to the same physical block 7.\<close>

definition twice_details :: device_details where
  "twice_details =
     \<lparr>mapped_blocks = 2, transaction_id = 0, creation_time = 0, snapshotted_time = 0\<rparr>"

definition twice_md :: metadata where
  "twice_md =
     \<lparr>data_block_size = 128,
      details = [Device_leaf 1 twice_details],
      mappings_top_level = (\<lambda>dev. if dev = 1 then Some 100 else None),
      single_mapping_tree = (\<lambda>root. if root = 100 then [mapping 0 7, mapping 1 7] else [])\<rparr>"

text \<open>
  The worked example with a damage notification in the tree of device 2, after its first
  leaf; and a device tree whose walk delivers a damage notification.
\<close>

definition damaged_md :: metadata where
  "damaged_md =
     \<lparr>data_block_size = 128,
      details = [Device_leaf 2 example_details_B, Device_leaf 1 example_details_A],
      mappings_top_level = (\<lambda>dev. if dev = 1 then Some 100 else if dev = 2 then Some 200 else None),
      single_mapping_tree =
        (\<lambda>root. if root = 100 then [mapping 0 1, mapping 1 2, mapping 2 3]
               else if root = 200
               then [mapping 0 3, Mapping_damage (missing_mappings ''missing mappings of device 2'')]
               else [])\<rparr>"

definition damaged_devices_md :: metadata where
  "damaged_devices_md =
     \<lparr>data_block_size = 128,
      details = [Device_leaf 2 example_details_B,
                 Device_damage (missing_devices ''missing device details'')],
      mappings_top_level = (\<lambda>dev. if dev = 2 then Some 200 else None),
      single_mapping_tree = (\<lambda>root. if root = 200 then [mapping 0 3, mapping 1 4] else [])\<rparr>"

text \<open>
  A device whose details say one mapped block and whose tree has two leaves.
\<close>

definition mismatch_details :: device_details where
  "mismatch_details =
     \<lparr>mapped_blocks = 1, transaction_id = 0, creation_time = 0, snapshotted_time = 0\<rparr>"

definition mismatch_md :: metadata where
  "mismatch_md =
     \<lparr>data_block_size = 128,
      details = [Device_leaf 1 mismatch_details],
      mappings_top_level = (\<lambda>dev. if dev = 1 then Some 100 else None),
      single_mapping_tree = (\<lambda>root. if root = 100 then [mapping 0 1, mapping 1 2] else [])\<rparr>"

section \<open>The loop of \<^verbatim>\<open>ensure_size\<close>\<close>

lemma unat_ucast_32_64: "unat (ucast (n :: 32 word) :: 64 word) = unat n"
  by (simp add: unsigned_ucast_eq take_bit_nat_eq_self unsigned_less [of n, THEN less_trans])

lemma ucast_less_iff: "(ucast (n :: 32 word) < (i :: 64 word)) = (unat n < unat i)"
  by (simp add: word_less_nat_alt unat_ucast_32_64)

text \<open>When the loop exits, the new size is at least the index: the vector never shrinks.\<close>

lemma loop_result_ge:
  assumes "ensure_size_loop n i = Some r"
  shows "unat i \<le> unat r"
proof (rule ensure_size_loop.raw_induct [where P = "\<lambda>n i r. unat i \<le> unat r", OF _ assms])
  fix loop :: "32 word \<Rightarrow> 64 word \<Rightarrow> 32 word option" and n i r
  assume "\<And>n i r. loop n i = Some r \<Longrightarrow> unat i \<le> unat r"
    and "(if ucast n < i then loop (n * 2) i else Some n) = Some r"
  then show "unat i \<le> unat r"
    by (auto simp: ucast_less_iff split: if_splits)
qed

text \<open>An index of 32 bits or more is never reached: the loop does not exit.\<close>

lemma loop_diverges_large:
  assumes "2 ^ 32 \<le> unat i"
  shows "ensure_size_loop n i = None"
proof (cases "ensure_size_loop n i")
  case None
  then show ?thesis .
next
  case (Some r)
  then have "unat i \<le> unat r" by (rule loop_result_ge)
  moreover have "unat r < 2 ^ 32" using unsigned_less [of r] by simp
  ultimately show ?thesis using assms by simp
qed

text \<open>From a size \<open>10240 * 2 ^ j\<close> the loop reaches the first such size that is not below the index.\<close>

lemma loop_grows:
  fixes n :: "32 word" and i :: "64 word"
  assumes "unat n = 10240 * 2 ^ j" and "j \<le> 18" and "unat i \<le> 10240 * 2 ^ 18"
  shows "\<exists>j' r. j \<le> j' \<and> j' \<le> 18 \<and> ensure_size_loop n i = Some r \<and> unat r = 10240 * 2 ^ j'
          \<and> unat i \<le> 10240 * 2 ^ j'"
  using assms
proof (induction "18 - j" arbitrary: n j)
  case 0
  then have j: "j = 18" by simp
  with 0 have "\<not> ucast n < i" by (simp add: ucast_less_iff)
  then have "ensure_size_loop n i = Some n" by (subst ensure_size_loop.simps) simp
  then show ?case using 0 j by (intro exI [of _ 18] exI [of _ n]) simp
next
  case (Suc k)
  show ?case
  proof (cases "ucast n < i")
    case False
    then have "ensure_size_loop n i = Some n" by (subst ensure_size_loop.simps) simp
    then show ?thesis
      using False Suc.prems by (intro exI [of _ j] exI [of _ n]) (simp add: ucast_less_iff)
  next
    case True
    have j: "j < 18" using Suc.hyps(2) by simp
    have "(10240::nat) * 2 ^ (Suc j) \<le> 10240 * 2 ^ 18"
      using j by (intro mult_le_mono2 power_increasing) simp_all
    then have lt: "unat n * 2 < 2 ^ 32" using Suc.prems(1) by simp
    have "unat (n * 2) = unat n * unat (2 :: 32 word)"
      using lt by (subst unat_mult_lem [symmetric]) simp
    then have n2: "unat (n * 2) = 10240 * 2 ^ Suc j" using Suc.prems(1) by simp
    have "k = 18 - Suc j" using Suc.hyps(2) by simp
    from Suc.hyps(1) [OF this n2 _ Suc.prems(3)] j
    obtain j' r where j': "Suc j \<le> j'" "j' \<le> 18"
      "ensure_size_loop (n * 2) i = Some r" "unat r = 10240 * 2 ^ j'"
      "unat i \<le> 10240 * 2 ^ j'"
      by auto
    have "ensure_size_loop n i = Some r"
      using True j'(3) by (subst ensure_size_loop.simps) simp
    then show ?thesis using j' by (intro exI [of _ j'] exI [of _ r]) simp
  qed
qed

section \<open>What the operations of \<^verbatim>\<open>mapping_set\<close> do when they return\<close>

lemma bit_at_append_False [simp]: "bit_at (bits @ replicate m False) = bit_at bits"
  by (auto simp: bit_at_def fun_eq_iff nth_append)

lemma bit_at_update:
  "i < length e \<Longrightarrow> bit_at (e[i := v]) = (bit_at e)(i := v)"
  by (auto simp: bit_at_def fun_eq_iff nth_list_update)

lemma ensure_size_Inr:
  assumes "ensure_size bits i = Inr bits'"
  shows "\<exists>m. bits' = bits @ replicate m False"
proof (cases "length bits \<le> unat i")
  case False
  with assms have "bits' = bits @ replicate 0 False" by (simp add: ensure_size_def)
  then show ?thesis ..
next
  case True
  show ?thesis
  proof (cases "ensure_size_loop (of_nat (length bits * 2)) i")
    case None
    with True assms show ?thesis unfolding ensure_size_def by simp
  next
    case (Some r)
    with True assms have b: "bits' = resize (unat r) bits" unfolding ensure_size_def by simp
    from Some have "unat i \<le> unat r" by (rule loop_result_ge)
    with True b have "bits' = bits @ replicate (unat r - length bits) False"
      by (simp add: resize_def)
    then show ?thesis ..
  qed
qed

lemma get_bit_Inr:
  assumes "get_bit bits i = Inr (v, bits')"
  shows "v = bit_at bits (unat i) \<and> bit_at bits' = bit_at bits \<and> length bits \<le> length bits'
          \<and> unat i < length bits'"
proof (cases "ensure_size bits i")
  case (Inl x)
  with assms show ?thesis by (simp add: get_bit_def)
next
  case (Inr e)
  from ensure_size_Inr [OF Inr] obtain m where m: "e = bits @ replicate m False" ..
  from assms Inr have lt: "unat i < length e"
    by (simp add: get_bit_def split: if_splits)
  with assms Inr have v: "v = e ! unat i" and b: "bits' = e"
    by (auto simp: get_bit_def)
  have "bit_at e = bit_at bits" unfolding m by simp
  moreover have "v = bit_at e (unat i)" using lt v by (simp add: bit_at_def)
  moreover have "length bits \<le> length e" unfolding m by simp
  ultimately show ?thesis using b lt by simp
qed

lemma set_bit_ms_Inr:
  assumes "set_bit_ms bits i v = Inr bits'"
  shows "bit_at bits' = (bit_at bits)(unat i := v) \<and> length bits \<le> length bits'
          \<and> unat i < length bits'"
proof (cases "ensure_size bits i")
  case (Inl x)
  with assms show ?thesis by (simp add: set_bit_ms_def)
next
  case (Inr e)
  from ensure_size_Inr [OF Inr] obtain m where m: "e = bits @ replicate m False" ..
  from assms Inr have lt: "unat i < length e"
    by (simp add: set_bit_ms_def split: if_splits)
  with assms Inr have b: "bits' = e[unat i := v]"
    by (simp add: set_bit_ms_def)
  have "bit_at e = bit_at bits" unfolding m by simp
  moreover have "length bits \<le> length e" unfolding m by simp
  ultimately show ?thesis using b lt by (simp add: bit_at_update)
qed

lemma inc_Inr:
  assumes "inc bits b = Inr bits'"
  shows "bit_at bits' =
           (if bit_at bits (unat (b * 2)) then (bit_at bits)(unat (b * 2 + 1) := True)
            else (bit_at bits)(unat (b * 2) := True))
         \<and> length bits \<le> length bits'"
proof (cases "get_bit bits (b * 2)")
  case (Inl x)
  with assms show ?thesis by (simp add: inc_def)
next
  case (Inr p)
  obtain seen e where p: "p = (seen, e)" by (cases p)
  note G = get_bit_Inr [OF Inr [unfolded p]]
  show ?thesis
  proof (cases seen)
    case True
    with assms Inr p have "set_bit_ms e (b * 2 + 1) True = Inr bits'" by (simp add: inc_def)
    from set_bit_ms_Inr [OF this] G True show ?thesis by simp
  next
    case False
    with assms Inr p have "set_bit_ms e (b * 2) True = Inr bits'" by (simp add: inc_def)
    from set_bit_ms_Inr [OF this] G False show ?thesis by simp
  qed
qed

lemma get_state_Inr:
  assumes "get_state bits b = Inr (s, bits')"
  shows "s = state_of bits b \<and> bit_at bits' = bit_at bits \<and> length bits \<le> length bits'"
proof (cases "get_bit bits (b * 2)")
  case (Inl x)
  with assms show ?thesis by (simp add: get_state_def)
next
  case (Inr p)
  obtain seen e where p: "p = (seen, e)" by (cases p)
  note G = get_bit_Inr [OF Inr [unfolded p]]
  show ?thesis
  proof (cases seen)
    case False
    with assms Inr p G show ?thesis by (simp add: get_state_def state_of_def)
  next
    case True
    show ?thesis
    proof (cases "get_bit e (b * 2 + 1)")
      case (Inl x)
      with assms \<open>get_bit bits (b * 2) = Inr p\<close> p True show ?thesis
        by (simp add: get_state_def)
    next
      case (Inr q)
      obtain shared e' where q: "q = (shared, e')" by (cases q)
      note G' = get_bit_Inr [OF Inr [unfolded q]]
      from assms \<open>get_bit bits (b * 2) = Inr p\<close> p True Inr q G G' show ?thesis
        by (auto simp: get_state_def state_of_def split: if_splits)
    qed
  qed
qed

lemma ensure_size_within: "unat i < length bits \<Longrightarrow> ensure_size bits i = Inr bits"
  by (simp add: ensure_size_def)

lemma get_bit_within: "unat i < length bits \<Longrightarrow> get_bit bits i = Inr (bits ! unat i, bits)"
  by (simp add: get_bit_def ensure_size_within)

lemma set_bit_ms_within: "unat i < length bits \<Longrightarrow> set_bit_ms bits i v = Inr (bits[unat i := v])"
  by (simp add: set_bit_ms_def ensure_size_within)

section \<open>Growth of the bit vector\<close>

text \<open>
  Claim C2 says that \<^verbatim>\<open>inc\<close> and \<^verbatim>\<open>get_state\<close> grow the vector so that the two
  bits of every block address are within bounds. The code does not do that. The loop
  of \<^verbatim>\<open>ensure_size\<close> stops as soon as the new size is not below the index, so an index
  equal to the doubled size is left one beyond the end: on a new set, block 10240 has
  its first bit at 20480, the vector is resized to 20480 bits and bit 20480 is read out
  of range. The new size is a 32-bit \<^verbatim>\<open>unsigned\<close> compared with a 64-bit index: for
  block \<open>2 ^ 31\<close> the index is \<open>2 ^ 32\<close>, which no 32-bit size reaches, and the loop
  does not end.
\<close>

theorem ensure_size_fails_at_doubled_size:
  "inc mapping_set_init 10240 = Inl Out_Of_Range
   \<and> get_state mapping_set_init 10240 = Inl Out_Of_Range
   \<and> inc mapping_set_init (2 ^ 31) = Inl Non_Termination
   \<and> get_state mapping_set_init (2 ^ 31) = Inl Non_Termination"
proof -
  have 1: "get_bit mapping_set_init (10240 * 2) = Inl Out_Of_Range"
    by (simp add: get_bit_def ensure_size_def mapping_set_init_def ensure_size_loop.simps resize_def)
  have 2: "get_bit mapping_set_init (2 ^ 31 * 2) = Inl Non_Termination"
    by (simp add: get_bit_def ensure_size_def mapping_set_init_def loop_diverges_large)
  show ?thesis
    by (simp only: inc_def get_state_def 1 2 sum.case simp_thms)
qed

section \<open>The state of a block only moves forward\<close>

lemma inc_bits_mono:
  assumes "inc t c = Inr t'"
  shows "bit_at t i \<Longrightarrow> bit_at t' i"
  using inc_Inr [OF assms] by (auto split: if_splits)

lemma walk_pass1_bits_mono:
  "walk_mapping_tree es mapping_pass1_visit dv t = Inr t' \<Longrightarrow> bit_at t i \<Longrightarrow> bit_at t' i"
proof (induction es mapping_pass1_visit dv t rule: walk_mapping_tree.induct)
  case (1 dv s)
  then show ?case by simp
next
  case (2 path bt es dv s)
  then show ?case
    by (auto simp: mapping_pass1_visit_def split: sum.splits dest: inc_bits_mono)
next
  case (3 d es dv s)
  then show ?case by (auto split: sum.splits)
qed

lemma pass1_bits_mono:
  "pass1 md t dev = Inr t' \<Longrightarrow> bit_at t i \<Longrightarrow> bit_at t' i"
  by (auto simp: pass1_def split: option.splits dest: walk_pass1_bits_mono)

lemma pass1_loop_bits_mono:
  "pass1_loop md t m = Inr t' \<Longrightarrow> bit_at t i \<Longrightarrow> bit_at t' i"
proof (induction m arbitrary: t)
  case Nil
  then show ?case by simp
next
  case (Cons a m)
  obtain dev dd where a: "a = (dev, dd)" by (cases a)
  from Cons.prems(1) obtain t1 where 1: "pass1 md t dev = Inr t1" and 2: "pass1_loop md t1 m = Inr t'"
    by (auto simp: a split: sum.splits)
  from pass1_bits_mono [OF 1 Cons.prems(2)] have "bit_at t1 i" .
  with Cons.IH [OF 2] show ?case .
qed

lemma state_of_mono:
  assumes "\<And>i. bit_at t i \<Longrightarrow> bit_at t' i"
  shows "rank (state_of t b) \<le> rank (state_of t' b)"
  using assms [of "unat (b * 2)"] assms [of "unat (b * 2 + 1)"]
  by (auto simp: state_of_def)

lemma state_of_cong: "bit_at u = bit_at t \<Longrightarrow> state_of u b = state_of t b"
  by (simp add: state_of_def)

text \<open>
  Claim C8: the state of a block as \<^verbatim>\<open>get_state\<close> reports it before and after any
  call of \<^verbatim>\<open>inc\<close> (on the same or another block), any \<^verbatim>\<open>pass1\<close> for a device
  and the whole first loop only moves forward in the order \<open>UNMAPPED\<close>,
  \<open>EXCLUSIVE\<close>, \<open>SHARED\<close>: an exclusive block does not become unmapped, a shared
  block stays shared. The increments start from the set \<open>t\<close> that was queried or from
  the set \<open>u\<close> that the query left.
\<close>

theorem block_state_monotonic:
  assumes "get_state t b = Inr (s, u)"
    and "x = t \<or> x = u"
    and "inc x c = Inr t' \<or> pass1 md x dev = Inr t' \<or> pass1_loop md x m = Inr t'"
    and "get_state t' b = Inr (s', u')"
  shows "rank s \<le> rank s' \<and> (s = EXCLUSIVE \<longrightarrow> s' \<noteq> UNMAPPED) \<and> (s = SHARED \<longrightarrow> s' = SHARED)"
proof -
  have mono: "\<And>i. bit_at x i \<Longrightarrow> bit_at t' i"
    using assms(3) inc_bits_mono pass1_bits_mono pass1_loop_bits_mono by blast
  from get_state_Inr [OF assms(1)] have s: "s = state_of t b" and u: "bit_at u = bit_at t"
    by simp_all
  from assms(2) u have "state_of x b = state_of t b"
    by (auto intro: state_of_cong)
  with s have "s = state_of x b" by simp
  moreover have "s' = state_of t' b" using get_state_Inr [OF assms(4)] by simp
  ultimately have le: "rank s \<le> rank s'" using state_of_mono [OF mono] by simp
  then show ?thesis by (cases s; cases s') simp_all
qed

theorem block_state_monotonic_witness:
  "get_state (mapping_set_init[14 := True]) 7 = Inr (EXCLUSIVE, mapping_set_init[14 := True])
   \<and> inc (mapping_set_init[14 := True]) 7 = Inr (mapping_set_init[14 := True, 15 := True])
   \<and> get_state (mapping_set_init[14 := True, 15 := True]) 7
       = Inr (SHARED, mapping_set_init[14 := True, 15 := True])
   \<and> rank EXCLUSIVE \<le> rank SHARED \<and> SHARED \<noteq> UNMAPPED"
proof -
  have 1: "inc (mapping_set_init[14 := True]) 7 = Inr (mapping_set_init[14 := True, 15 := True])"
    by (simp add: inc_def mapping_set_init_def get_bit_within set_bit_ms_within)
  have 2: "get_state (mapping_set_init[14 := True]) 7 = Inr (EXCLUSIVE, mapping_set_init[14 := True])"
    by (simp add: get_state_def mapping_set_init_def get_bit_within)
  have 3: "get_state (mapping_set_init[14 := True, 15 := True]) 7
       = Inr (SHARED, mapping_set_init[14 := True, 15 := True])"
    by (simp add: get_state_def mapping_set_init_def get_bit_within)
  from block_state_monotonic [OF 2 disjI1 [OF refl] disjI1 [OF 1] 3] 1 2 3 show ?thesis by simp
qed

section \<open>The device catalogue\<close>

lemma set_dd_insert: "fst ` set (dd_insert k v m) = insert k (fst ` set m)"
  by (induction m) force+

lemma sorted_dd_insert:
  "sorted_wrt (<) (map fst m) \<Longrightarrow> sorted_wrt (<) (map fst (dd_insert k v m))"
proof (induction m)
  case Nil
  then show ?case by simp
next
  case (Cons a m)
  obtain k' v' where a: "a = (k', v')" by (cases a)
  from Cons.prems have tl: "sorted_wrt (<) (map fst m)" and hd: "\<forall>x\<in>fst ` set m. k' < x"
    by (auto simp: a)
  show ?case
  proof (cases "k < k'")
    case True
    with Cons.prems show ?thesis by (auto simp: a)
  next
    case False
    show ?thesis
    proof (cases "k = k'")
      case True
      with Cons.prems show ?thesis by (simp add: a)
    next
      case ne: False
      with False have "k' < k" by simp
      with hd have "\<forall>x\<in>fst ` set (dd_insert k v m). k' < x"
        by (simp only: set_dd_insert) simp
      with Cons.IH [OF tl] False ne show ?thesis by (simp add: a)
    qed
  qed
qed

lemma fatal_details_damage_visit_eq: "fatal_details_damage_visit d = raise_metadata_damage"
  by (cases d) simp_all

lemma fatal_mapping_damage_visit_eq: "fatal_mapping_damage_visit d = raise_metadata_damage"
  by (cases d) simp_all

lemma walk_device_tree_gen:
  assumes v: "\<And>dev dd m. v dev dd m = Inr (dd_insert dev dd m)"
    and dv: "\<And>d. dv d = raise_metadata_damage"
  shows "walk_device_tree es v dv m0 = Inr m \<Longrightarrow>
     fst ` set m = fst ` set m0 \<union> set (device_ids es)
     \<and> (sorted_wrt (<) (map fst m0) \<longrightarrow> sorted_wrt (<) (map fst m))
     \<and> (\<forall>d. Device_damage d \<notin> set es)"
proof (induction es arbitrary: m0)
  case Nil
  then show ?case by simp
next
  case (Cons e es)
  show ?case
  proof (cases e)
    case (Device_leaf dev dd)
    with Cons.prems have "walk_device_tree es v dv (dd_insert dev dd m0) = Inr m"
      by (simp add: v [of dev dd m0])
    from Cons.IH [OF this] show ?thesis
      by (auto simp: Device_leaf set_dd_insert sorted_dd_insert)
  next
    case (Device_damage d)
    with Cons.prems show ?thesis
      by (simp add: dv [of d] raise_metadata_damage_def)
  qed
qed

lemmas walk_device_tree_Inr =
  walk_device_tree_gen [of details_extractor_visit fatal_details_damage_visit,
    OF details_extractor_visit_def fatal_details_damage_visit_eq]

lemma catalogue_keys:
  assumes "walk_device_tree es details_extractor_visit fatal_details_damage_visit [] = Inr m"
  shows "map fst m = sorted_list_of_set (set (device_ids es))"
proof -
  from walk_device_tree_Inr [OF assms]
  have s: "fst ` set m = set (device_ids es)" and o: "sorted_wrt (<) (map fst m)"
    by auto
  from o have "sorted (map fst m)" "distinct (map fst m)" by (simp_all add: strict_sorted_iff)
  then show ?thesis
    using s by (intro sorted_distinct_set_unique) simp_all
qed

section \<open>The shape of the report\<close>

lemma report_loop_Cons_Inr:
  "report_loop md fl sef t ((dev, dd) # m) = Inr rows \<Longrightarrow>
     \<exists>e t' rows'. (if sef then count_exclusives md t dev else Inr (0, t)) = Inr (e, t')
       \<and> report_loop md fl sef t' m = Inr rows'
       \<and> rows = device_row md fl dev dd e # rows'"
  by (auto simp: device_row_def split: sum.splits)

lemma report_loop_rows:
  "report_loop md fl sef t m = Inr rows \<Longrightarrow>
     list_all2 (\<lambda>(dev, dd) r. \<exists>e.
        (if sef then \<exists>t1 t2. count_exclusives md t1 dev = Inr (e, t2) else e = 0)
        \<and> r = device_row md fl dev dd e) m rows"
proof (induction m arbitrary: t rows)
  case Nil
  then show ?case by simp
next
  case (Cons a m)
  obtain dev dd where a: "a = (dev, dd)" by (cases a)
  from report_loop_Cons_Inr [OF Cons.prems [unfolded a]] obtain e t' rows' where
    c: "(if sef then count_exclusives md t dev else Inr (0, t)) = Inr (e, t')"
    and r: "report_loop md fl sef t' m = Inr rows'"
    and rows: "rows = device_row md fl dev dd e # rows'"
    by blast
  from c have "if sef then \<exists>t1 t2. count_exclusives md t1 dev = Inr (e, t2) else e = 0"
    by (auto split: if_splits)
  with Cons.IH [OF r] show ?case by (auto simp: a rows)
qed

lemma ls_body_Inr:
  assumes "ls_body md fl sef = Inr rows"
  shows "\<exists>m t rows'. walk_device_tree (details md) details_extractor_visit fatal_details_damage_visit [] = Inr m
      \<and> (if sef then pass1_loop md mapping_set_init m else Inr mapping_set_init) = Inr t
      \<and> report_loop md fl sef t m = Inr rows'
      \<and> rows = header_rows fl @ rows'"
  using assms by (auto simp: ls_body_def header_rows_def split: sum.splits)


lemma ls_impl_Inr:
  assumes "ls_impl md fl = Inr rows"
  shows "\<exists>m rows'. walk_device_tree (details md) details_extractor_visit fatal_details_damage_visit [] = Inr m
      \<and> rows = header_rows fl @ rows'
      \<and> list_all2 (\<lambda>(dev, dd) r. \<exists>e.
           (if pass1_needed (field_list fl)
            then \<exists>t1 t2. count_exclusives md t1 dev = Inr (e, t2) else e = 0)
           \<and> r = device_row md fl dev dd e) m rows'"
proof -
  from ls_body_Inr [OF assms [unfolded ls_impl_def]] obtain m t rows' where
    "walk_device_tree (details md) details_extractor_visit fatal_details_damage_visit [] = Inr m"
    "report_loop md fl (pass1_needed (field_list fl)) t m = Inr rows'"
    "rows = header_rows fl @ rows'"
    by blast
  with report_loop_rows [of md fl "pass1_needed (field_list fl)" t m rows'] show ?thesis
    by blast
qed

section \<open>The worked example, evaluated\<close>

lemmas tracker_eval =
  inc_def get_state_def get_bit_within set_bit_ms_within mapping_set_init_def

lemma example_catalogue:
  "walk_device_tree (details example_md) details_extractor_visit fatal_details_damage_visit []
     = Inr [(1, example_details_A), (2, example_details_B)]"
  by (simp add: example_md_def details_extractor_visit_def)

lemma example_pass1_loop:
  "pass1_loop example_md mapping_set_init [(1, example_details_A), (2, example_details_B)]
     = Inr example_pass1"
  by (simp add: example_md_def pass1_def mapping_def mapping_pass1_visit_def tracker_eval
      example_pass1_def)

lemma example_count_A:
  "count_exclusives example_md example_pass1 1 = Inr (2, example_pass1)"
  by (simp add: example_md_def count_exclusives_def mapping_def mapping_pass2_visit_def tracker_eval
      example_pass1_def)

lemma example_count_B:
  "count_exclusives example_md example_pass1 2 = Inr (1, example_pass1)"
  by (simp add: example_md_def count_exclusives_def mapping_def mapping_pass2_visit_def tracker_eval
      example_pass1_def)

lemma example_fields:
  "data_block_size example_md = 128"
  "mapped_blocks example_details_A = 3"
  "mapped_blocks example_details_B = 2"
  by (simp_all add: example_md_def example_details_A_def example_details_B_def)

lemma example_report_loop:
  "report_loop example_md block_fields True example_pass1
       [(1, example_details_A), (2, example_details_B)]
     = Inr [[Number 1, Number 3, Number 2, Number 1], [Number 2, Number 2, Number 1, Number 1]]"
  by (simp add: example_count_A example_count_B block_fields_def example_fields)

lemma example_report:
  "ls_impl example_md block_fields =
     Inr [[Number 1, Number 3, Number 2, Number 1], [Number 2, Number 2, Number 1, Number 1]]"
proof -
  have n: "pass1_needed (field_list block_fields)" "\<not> headers block_fields"
    by (simp_all add: block_fields_def)
  show ?thesis
    unfolding ls_impl_def ls_body_def
    by (simp only: n example_catalogue example_pass1_loop example_report_loop
        sum.case if_True if_False append_Nil)
qed


section \<open>Order of the devices\<close>

text \<open>
  Claim C9: the map built from the walk of the device tree lists the device ids that the
  walk delivered, each once, in ascending order, whatever the order of delivery. The
  report has one row for each entry of the map, in that order: where a column is
  \<open>DEV_ID\<close>, row \<open>i\<close> (after the header) shows the id of entry \<open>i\<close>.
\<close>

theorem devices_listed_once_ascending:
  assumes "walk_device_tree (details md) details_extractor_visit fatal_details_damage_visit [] = Inr m"
  shows "map fst m = sorted_list_of_set (set (device_ids (details md)))
    \<and> (\<forall>rows. ls_impl md fl = Inr rows \<longrightarrow>
          length rows = length (header_rows fl) + length m
          \<and> (\<forall>i<length m. \<forall>k<length (field_list fl). field_list fl ! k = DEV_ID \<longrightarrow>
                rows ! (length (header_rows fl) + i) ! k = Number (fst (m ! i))))"
proof -
  have keys: "map fst m = sorted_list_of_set (set (device_ids (details md)))"
    using assms by (rule catalogue_keys)
  have rep: "length rows = length (header_rows fl) + length m
          \<and> (\<forall>i<length m. \<forall>k<length (field_list fl). field_list fl ! k = DEV_ID \<longrightarrow>
                rows ! (length (header_rows fl) + i) ! k = Number (fst (m ! i)))"
    if r: "ls_impl md fl = Inr rows" for rows
  proof -
    from ls_impl_Inr [OF r] obtain m' rows' where
      w: "walk_device_tree (details md) details_extractor_visit fatal_details_damage_visit [] = Inr m'"
      and rows: "rows = header_rows fl @ rows'"
      and all: "list_all2 (\<lambda>(dev, dd) r. \<exists>e.
           (if pass1_needed (field_list fl)
            then \<exists>t1 t2. count_exclusives md t1 dev = Inr (e, t2) else e = 0)
           \<and> r = device_row md fl dev dd e) m' rows'"
      by blast
    from w assms have m': "m' = m" by simp
    from all have len: "length rows' = length m" by (simp add: list_all2_lengthD m')
    have cell: "rows ! (length (header_rows fl) + i) ! k = Number (fst (m ! i))"
      if i: "i < length m" and k: "k < length (field_list fl)" and f: "field_list fl ! k = DEV_ID"
      for i k
    proof -
      obtain dev dd where mi: "m ! i = (dev, dd)" by (cases "m ! i")
      from list_all2_nthD [OF all [unfolded m'] i] mi
      obtain e where "rows' ! i = device_row md fl dev dd e"
        by auto
      then have "rows' ! i ! k = Number dev" using k f by (simp add: device_row_def)
      then show ?thesis by (simp add: rows mi)
    qed
    from len cell show ?thesis by (simp add: rows)
  qed
  from keys rep show ?thesis by blast
qed

theorem devices_listed_once_ascending_witness:
  "walk_device_tree (details example_md) details_extractor_visit fatal_details_damage_visit []
     = Inr [(1, example_details_A), (2, example_details_B)]
   \<and> device_ids (details example_md) = [2, 1]
   \<and> map fst [(1 :: block_address, example_details_A), (2, example_details_B)]
       = sorted_list_of_set (set (device_ids (details example_md)))
   \<and> ls_impl example_md block_fields
       = Inr [[Number 1, Number 3, Number 2, Number 1], [Number 2, Number 2, Number 1, Number 1]]"
proof -
  have "device_ids (details example_md) = [2, 1]" by (simp add: example_md_def)
  with devices_listed_once_ascending [OF example_catalogue, of block_fields]
    example_catalogue example_report
  show ?thesis by simp
qed

section \<open>Shared blocks\<close>

lemma word_sub_add_nat:
  fixes e m :: "64 word"
  shows "(unat e + unat (m - e) = unat m) = (e \<le> m)"
proof
  assume "unat e + unat (m - e) = unat m"
  then have "unat e \<le> unat m" by simp
  then show "e \<le> m" by (simp add: word_le_nat_alt)
next
  assume "e \<le> m"
  then have "unat (m - e) = unat m - unat e" by (rule unat_sub)
  moreover from \<open>e \<le> m\<close> have "unat e \<le> unat m" by (simp add: word_le_nat_alt)
  ultimately show "unat e + unat (m - e) = unat m" by simp
qed

lemma device_row_nth:
  "k < length (field_list fl) \<Longrightarrow>
     device_row md fl dev dd e ! k = emit_field (field_list fl ! k) (data_block_size md) dev dd e"
  by (simp add: device_row_def)

text \<open>
  Claim C7: when a field that depends on exclusivity is requested, every device row is
  built from the exclusive count \<open>e\<close> that \<^verbatim>\<open>count_exclusives\<close> returned for the
  device. A column \<open>SHARED_BLOCKS\<close> shows the 64-bit difference
  \<open>mapped_blocks - e\<close>, so exclusive plus shared is the mapped count in 64-bit
  arithmetic; as natural numbers the sum is the mapped count exactly when
  \<open>e \<le> mapped_blocks\<close>.
\<close>

theorem shared_is_mapped_minus_exclusive:
  assumes "ls_impl md fl = Inr rows" and "pass1_needed (field_list fl)"
  shows "\<exists>m. walk_device_tree (details md) details_extractor_visit fatal_details_damage_visit [] = Inr m
    \<and> length (drop (length (header_rows fl)) rows) = length m
    \<and> (\<forall>i<length m. \<exists>e t1 t2.
          count_exclusives md t1 (fst (m ! i)) = Inr (e, t2)
          \<and> (\<forall>k<length (field_list fl).
                (field_list fl ! k = EXCLUSIVE_BLOCKS \<longrightarrow>
                   drop (length (header_rows fl)) rows ! i ! k = Number e)
              \<and> (field_list fl ! k = MAPPED_BLOCKS \<longrightarrow>
                   drop (length (header_rows fl)) rows ! i ! k = Number (mapped_blocks (snd (m ! i))))
              \<and> (field_list fl ! k = SHARED_BLOCKS \<longrightarrow>
                   drop (length (header_rows fl)) rows ! i ! k
                     = Number (mapped_blocks (snd (m ! i)) - e)))
          \<and> e + (mapped_blocks (snd (m ! i)) - e) = mapped_blocks (snd (m ! i))
          \<and> ((unat e + unat (mapped_blocks (snd (m ! i)) - e) = unat (mapped_blocks (snd (m ! i))))
               = (e \<le> mapped_blocks (snd (m ! i)))))"
proof -
  from ls_impl_Inr [OF assms(1)] obtain m rows' where
    w: "walk_device_tree (details md) details_extractor_visit fatal_details_damage_visit [] = Inr m"
    and rows: "rows = header_rows fl @ rows'"
    and all: "list_all2 (\<lambda>(dev, dd) r. \<exists>e.
           (if pass1_needed (field_list fl)
            then \<exists>t1 t2. count_exclusives md t1 dev = Inr (e, t2) else e = 0)
           \<and> r = device_row md fl dev dd e) m rows'"
    by blast
  have d: "drop (length (header_rows fl)) rows = rows'" by (simp add: rows)
  from all have len: "length rows' = length m" by (simp add: list_all2_lengthD)
  have row: "\<exists>e t1 t2.
          count_exclusives md t1 (fst (m ! i)) = Inr (e, t2)
          \<and> (\<forall>k<length (field_list fl).
                (field_list fl ! k = EXCLUSIVE_BLOCKS \<longrightarrow> rows' ! i ! k = Number e)
              \<and> (field_list fl ! k = MAPPED_BLOCKS \<longrightarrow>
                   rows' ! i ! k = Number (mapped_blocks (snd (m ! i))))
              \<and> (field_list fl ! k = SHARED_BLOCKS \<longrightarrow>
                   rows' ! i ! k = Number (mapped_blocks (snd (m ! i)) - e)))
          \<and> e + (mapped_blocks (snd (m ! i)) - e) = mapped_blocks (snd (m ! i))
          \<and> ((unat e + unat (mapped_blocks (snd (m ! i)) - e) = unat (mapped_blocks (snd (m ! i))))
               = (e \<le> mapped_blocks (snd (m ! i))))"
    if i: "i < length m" for i
  proof -
    obtain dev dd where mi: "m ! i = (dev, dd)" by (cases "m ! i")
    from list_all2_nthD [OF all i] mi assms(2)
    obtain e t1 t2 where c: "count_exclusives md t1 dev = Inr (e, t2)"
      and r: "rows' ! i = device_row md fl dev dd e"
      by auto
    have "\<forall>k<length (field_list fl).
                (field_list fl ! k = EXCLUSIVE_BLOCKS \<longrightarrow> rows' ! i ! k = Number e)
              \<and> (field_list fl ! k = MAPPED_BLOCKS \<longrightarrow> rows' ! i ! k = Number (mapped_blocks dd))
              \<and> (field_list fl ! k = SHARED_BLOCKS \<longrightarrow>
                   rows' ! i ! k = Number (mapped_blocks dd - e))"
      by (simp add: r device_row_nth)
    moreover have "e + (mapped_blocks dd - e) = mapped_blocks dd" by simp
    ultimately show ?thesis
      using c word_sub_add_nat [of e "mapped_blocks dd"] unfolding mi fst_conv snd_conv
      by blast
  qed
  from w len row show ?thesis unfolding d by blast
qed


theorem shared_is_mapped_minus_exclusive_witness:
  "ls_impl example_md block_fields
     = Inr [[Number 1, Number 3, Number 2, Number 1], [Number 2, Number 2, Number 1, Number 1]]
   \<and> pass1_needed (field_list block_fields)
   \<and> (\<exists>m. walk_device_tree (details example_md) details_extractor_visit
             fatal_details_damage_visit [] = Inr m
          \<and> length (drop (length (header_rows block_fields))
               [[Number 1, Number 3, Number 2, Number 1], [Number 2, Number 2, Number 1, Number 1]])
             = length m)"
proof -
  have n: "pass1_needed (field_list block_fields)" by (simp add: block_fields_def)
  from shared_is_mapped_minus_exclusive [OF example_report n] example_report n
  show ?thesis by blast
qed

section \<open>Skipping the passes\<close>

lemma pass1_needed_iff: "pass1_needed fs \<longleftrightarrow> (\<exists>f\<in>set fs. f \<in> exclusivity_fields)"
  by (induction fs) (auto simp: exclusivity_fields_def)

lemma emit_field_plain:
  "f \<notin> exclusivity_fields \<Longrightarrow> emit_field f bs dev dd e = emit_field f bs dev dd 0"
  by (cases f) (simp_all add: exclusivity_fields_def)

lemma device_row_plain:
  "\<not> pass1_needed (field_list fl) \<Longrightarrow> device_row md fl dev dd e = device_row md fl dev dd 0"
  by (auto simp: device_row_def pass1_needed_iff intro: emit_field_plain)

lemma report_loop_skipped:
  "report_loop md fl False t m = Inr (map (\<lambda>(dev, dd). device_row md fl dev dd 0) m)"
  by (induction m arbitrary: t) (auto simp: device_row_def)

lemma report_loop_forced:
  assumes "\<not> pass1_needed (field_list fl)"
  shows "report_loop md fl True t m = Inr rows \<Longrightarrow>
           rows = map (\<lambda>(dev, dd). device_row md fl dev dd 0) m"
proof (induction m arbitrary: t rows)
  case Nil
  then show ?case by simp
next
  case (Cons a m)
  obtain dev dd where a: "a = (dev, dd)" by (cases a)
  from report_loop_Cons_Inr [OF Cons.prems [unfolded a]] obtain e t' rows' where
    r: "report_loop md fl True t' m = Inr rows'"
    and rows: "rows = device_row md fl dev dd e # rows'"
    by blast
  from Cons.IH [OF r] device_row_plain [OF assms, of md dev dd e] show ?case
    by (simp add: a rows)
qed

lemma ls_body_skipped:
  "ls_body md fl False =
     (case walk_device_tree (details md) details_extractor_visit fatal_details_damage_visit [] of
        Inl e \<Rightarrow> Inl e
      | Inr m \<Rightarrow> Inr (header_rows fl @ map (\<lambda>(dev, dd). device_row md fl dev dd 0) m))"
  by (simp add: ls_body_def report_loop_skipped header_rows_def split: sum.splits)

lemma example_forced:
  "ls_body example_md mapped_only True =
     Inr [[Text ''DEV'', Text ''MAPPED_BLOCKS''], [Number 1, Number 3], [Number 2, Number 2]]"
proof -
  have r: "report_loop example_md mapped_only True example_pass1
       [(1, example_details_A), (2, example_details_B)]
     = Inr [[Number 1, Number 3], [Number 2, Number 2]]"
    by (simp add: example_count_A example_count_B mapped_only_def example_fields)
  have h: "headers mapped_only" "print_headers (field_list mapped_only) = [Text ''DEV'', Text ''MAPPED_BLOCKS'']"
    by (simp_all add: mapped_only_def print_headers_def)
  show ?thesis
    unfolding ls_body_def
    by (simp only: example_catalogue example_pass1_loop r h sum.case if_True append.simps)
qed

section \<open>Safe block addresses\<close>

lemma ensure_size_total:
  assumes ok: "capacity_ok bits" and lt: "unat i < 10240 * 2 ^ 18"
    and ne: "\<And>j. 1 \<le> j \<Longrightarrow> j \<le> 18 \<Longrightarrow> unat i \<noteq> 10240 * 2 ^ j"
  shows "\<exists>bits'. ensure_size bits i = Inr bits' \<and> capacity_ok bits' \<and> unat i < length bits'"
proof (cases "length bits \<le> unat i")
  case False
  with ok show ?thesis by (simp add: ensure_size_def)
next
  case True
  from ok obtain k where k: "k \<le> 18" "length bits = 10240 * 2 ^ k"
    by (auto simp: capacity_ok_def)
  have "k < 18"
  proof (rule ccontr)
    assume "\<not> k < 18"
    with k have "k = 18" by simp
    with k True lt show False by simp
  qed
  then have "(10240::nat) * 2 ^ Suc k \<le> 10240 * 2 ^ 18"
    by (intro mult_le_mono2 power_increasing) simp_all
  then have small: "length bits * 2 < 2 ^ 32" using k by simp
  have "unat (of_nat (length bits * 2) :: 32 word) = (length bits * 2) mod 2 ^ LENGTH(32)"
    by (simp only: unat_of_nat)
  also have "\<dots> = length bits * 2" using small by simp
  finally have n: "unat (of_nat (length bits * 2) :: 32 word) = 10240 * 2 ^ Suc k"
    using k by simp
  from loop_grows [OF n _ less_imp_le [OF lt]] \<open>k < 18\<close>
  obtain j' r where j': "Suc k \<le> j'" "j' \<le> 18"
    "ensure_size_loop (of_nat (length bits * 2)) i = Some r" "unat r = 10240 * 2 ^ j'"
    "unat i \<le> 10240 * 2 ^ j'"
    by auto
  have "unat i \<noteq> 10240 * 2 ^ j'" using ne [of j'] j' by simp
  with j' have i: "unat i < unat r" by simp
  have e: "ensure_size bits i = Inr (resize (unat r) bits)"
    using True j'(3) unfolding ensure_size_def by simp
  have "length (resize (unat r) bits) = unat r"
    using True i by (simp add: resize_def)
  then have "capacity_ok (resize (unat r) bits) \<and> unat i < length (resize (unat r) bits)"
    using j' i by (auto simp: capacity_ok_def)
  with e show ?thesis by simp
qed

lemma get_bit_total:
  assumes "capacity_ok bits" and "unat i < 10240 * 2 ^ 18"
    and "\<And>j. 1 \<le> j \<Longrightarrow> j \<le> 18 \<Longrightarrow> unat i \<noteq> 10240 * 2 ^ j"
  shows "\<exists>v bits'. get_bit bits i = Inr (v, bits') \<and> capacity_ok bits'"
proof -
  from ensure_size_total [OF assms] obtain e where
    "ensure_size bits i = Inr e" "capacity_ok e" "unat i < length e" by blast
  then show ?thesis by (simp add: get_bit_def)
qed

lemma set_bit_ms_total:
  assumes "capacity_ok bits" and "unat i < 10240 * 2 ^ 18"
    and "\<And>j. 1 \<le> j \<Longrightarrow> j \<le> 18 \<Longrightarrow> unat i \<noteq> 10240 * 2 ^ j"
  shows "\<exists>bits'. set_bit_ms bits i v = Inr bits' \<and> capacity_ok bits'"
proof -
  from ensure_size_total [OF assms] obtain e where
    "ensure_size bits i = Inr e" "capacity_ok e" "unat i < length e" by blast
  then show ?thesis by (simp add: set_bit_ms_def capacity_ok_def)
qed

lemma safe_unat:
  assumes "safe b"
  shows "unat (b * 2) = 2 * unat b" and "unat (b * 2 + 1) = 2 * unat b + 1"
proof -
  from assms have lt: "unat b < 10240 * 2 ^ 17" by (simp add: safe_def)
  have "unat (b * 2) = unat b * unat (2 :: 64 word)"
    by (rule unat_mult_lem [THEN iffD1]) (use lt in simp)
  then show 1: "unat (b * 2) = 2 * unat b" by simp
  have "unat (b * 2 + 1) = unat (b * 2) + unat (1 :: 64 word)"
    by (rule unat_add_lem [THEN iffD1]) (use 1 lt in simp)
  then show "unat (b * 2 + 1) = 2 * unat b + 1" using 1 by simp
qed

lemma safe_even_index:
  assumes "safe b"
  shows "unat (b * 2) < 10240 * 2 ^ 18"
    and "1 \<le> j \<Longrightarrow> j \<le> 18 \<Longrightarrow> unat (b * 2) \<noteq> 10240 * 2 ^ j"
proof -
  from assms show "unat (b * 2) < 10240 * 2 ^ 18" by (simp add: safe_unat safe_def)
  assume j: "1 \<le> j" "j \<le> 18"
  show "unat (b * 2) \<noteq> 10240 * 2 ^ j"
  proof
    assume "unat (b * 2) = 10240 * 2 ^ j"
    then have "2 * unat b = 2 * (10240 * 2 ^ (j - 1))"
      using j assms by (cases j) (simp_all add: safe_unat)
    then have "unat b = 10240 * 2 ^ (j - 1)" by simp
    moreover have "j - 1 < 17 \<or> j - 1 = 17" using j by arith
    ultimately show False using assms by (auto simp: safe_def)
  qed
qed

lemma safe_odd_index:
  assumes "safe b"
  shows "unat (b * 2 + 1) < 10240 * 2 ^ 18"
    and "1 \<le> j \<Longrightarrow> j \<le> 18 \<Longrightarrow> unat (b * 2 + 1) \<noteq> 10240 * 2 ^ j"
proof -
  from assms show "unat (b * 2 + 1) < 10240 * 2 ^ 18" by (simp add: safe_unat safe_def)
  assume j: "1 \<le> j" "j \<le> 18"
  have "even ((10240::nat) * 2 ^ j)" by simp
  moreover have "odd (unat (b * 2 + 1))" using assms by (simp add: safe_unat)
  ultimately show "unat (b * 2 + 1) \<noteq> 10240 * 2 ^ j" by metis
qed

lemma inc_total:
  assumes "capacity_ok bits" and "safe b"
  shows "\<exists>bits'. inc bits b = Inr bits' \<and> capacity_ok bits'"
proof -
  from get_bit_total [OF assms(1) safe_even_index [OF assms(2)]]
  obtain seen e where g: "get_bit bits (b * 2) = Inr (seen, e)" and e: "capacity_ok e"
    by blast
  show ?thesis
  proof (cases seen)
    case True
    from set_bit_ms_total [OF e safe_odd_index [OF assms(2)]]
    obtain bits' where "set_bit_ms e (b * 2 + 1) True = Inr bits'" "capacity_ok bits'"
      by blast
    with g True show ?thesis by (simp add: inc_def)
  next
    case False
    from set_bit_ms_total [OF e safe_even_index [OF assms(2)]]
    obtain bits' where "set_bit_ms e (b * 2) True = Inr bits'" "capacity_ok bits'"
      by blast
    with g False show ?thesis by (simp add: inc_def)
  qed
qed

lemma get_state_total:
  assumes "capacity_ok bits" and "safe b"
  shows "\<exists>s bits'. get_state bits b = Inr (s, bits') \<and> capacity_ok bits'"
proof -
  from get_bit_total [OF assms(1) safe_even_index [OF assms(2)]]
  obtain seen e where g: "get_bit bits (b * 2) = Inr (seen, e)" and e: "capacity_ok e"
    by blast
  show ?thesis
  proof (cases seen)
    case True
    from get_bit_total [OF e safe_odd_index [OF assms(2)]]
    obtain shared e' where "get_bit e (b * 2 + 1) = Inr (shared, e')" "capacity_ok e'"
      by blast
    with g True show ?thesis by (simp add: get_state_def)
  next
    case False
    with g e show ?thesis by (simp add: get_state_def)
  qed
qed

lemma capacity_ok_init: "capacity_ok mapping_set_init"
  unfolding capacity_ok_def mapping_set_init_def by (intro exI [of _ 0]) simp

lemma safe_small: "unat b < 10240 \<Longrightarrow> safe b"
proof -
  assume lt: "unat b < 10240"
  have "\<And>j. (10240::nat) \<le> 10240 * 2 ^ j" by simp
  with lt have "\<And>j. unat b \<noteq> 10240 * 2 ^ j" by (metis not_less)
  with lt show ?thesis by (simp add: safe_def)
qed

section \<open>Counting references\<close>

lemma tracks_init: "tracks mapping_set_init (\<lambda>c. 0)"
proof -
  have "\<not> bit_at mapping_set_init i" for i
    by (simp add: bit_at_def mapping_set_init_def)
  with capacity_ok_init show ?thesis by (simp add: tracks_def)
qed

lemma inc_tracks:
  assumes t: "tracks t cnt" and b: "safe b"
  shows "\<exists>t'. inc t b = Inr t' \<and> tracks t' (cnt(b := Suc (cnt b)))"
proof -
  from t have ok: "capacity_ok t" by (simp add: tracks_def)
  from inc_total [OF ok b] obtain t' where i: "inc t b = Inr t'" and ok': "capacity_ok t'"
    by blast
  from t b have seen: "bit_at t (2 * unat b) = (1 \<le> cnt b)"
    and shared: "bit_at t (2 * unat b + 1) = (2 \<le> cnt b)"
    by (simp_all add: tracks_def)
  have bits: "bit_at t' =
     (if 1 \<le> cnt b then (bit_at t)(2 * unat b + 1 := True) else (bit_at t)(2 * unat b := True))"
    using inc_Inr [OF i] seen by (simp add: safe_unat [OF b])
  have "bit_at t' (2 * unat c) = (1 \<le> (cnt(b := Suc (cnt b))) c)
      \<and> bit_at t' (2 * unat c + 1) = (2 \<le> (cnt(b := Suc (cnt b))) c)"
    if c: "safe c" for c
  proof (cases "c = b")
    case True
    with seen shared show ?thesis by (auto simp: bits)
  next
    case False
    then have "unat c \<noteq> unat b" by (simp add: word_unat_eq_iff)
    then have "2 * unat c \<noteq> 2 * unat b" "2 * unat c + 1 \<noteq> 2 * unat b + 1"
      "2 * unat c \<noteq> 2 * unat b + 1" "2 * unat c + 1 \<noteq> 2 * unat b"
      by presburger+
    with t c False show ?thesis by (simp add: bits tracks_def)
  qed
  with ok' i show ?thesis by (simp add: tracks_def)
qed

lemma get_state_tracks:
  assumes t: "tracks t cnt" and b: "safe b"
  shows "\<exists>u. get_state t b = Inr (classify (cnt b), u) \<and> tracks u cnt"
proof -
  from t have ok: "capacity_ok t" by (simp add: tracks_def)
  from get_state_total [OF ok b] obtain s u where g: "get_state t b = Inr (s, u)"
    and ok': "capacity_ok u"
    by blast
  note G = get_state_Inr [OF g]
  from t b have "state_of t b = classify (cnt b)"
    by (cases "cnt b" rule: classify.cases) (simp_all add: state_of_def tracks_def safe_unat [OF b])
  moreover have "tracks u cnt" using t ok' G by (simp add: tracks_def)
  ultimately show ?thesis using g G by simp
qed


lemma walk_pass1_tracks:
  assumes "damage_free es" and "list_all safe (leaf_blocks es)" and "tracks t cnt"
  shows "\<exists>t'. walk_mapping_tree es mapping_pass1_visit dv t = Inr t'
           \<and> tracks t' (\<lambda>c. cnt c + count_list (leaf_blocks es) c)"
  using assms
proof (induction es arbitrary: t cnt)
  case Nil
  then show ?case by simp
next
  case (Cons e es)
  show ?case
  proof (cases e)
    case (Mapping_damage d)
    with Cons.prems show ?thesis by simp
  next
    case (Mapping_leaf path bt)
    with Cons.prems have df: "damage_free es" and sf: "list_all safe (leaf_blocks es)"
      and b: "safe (block bt)"
      by simp_all
    from inc_tracks [OF Cons.prems(3) b] obtain t1 where
      i: "inc t (block bt) = Inr t1"
      and t1: "tracks t1 (cnt(block bt := Suc (cnt (block bt))))"
      by blast
    from Cons.IH [OF df sf t1] obtain t' where
      w: "walk_mapping_tree es mapping_pass1_visit dv t1 = Inr t'"
      and t': "tracks t' (\<lambda>c. (cnt(block bt := Suc (cnt (block bt)))) c + count_list (leaf_blocks es) c)"
      by blast
    have "(\<lambda>c. (cnt(block bt := Suc (cnt (block bt)))) c + count_list (leaf_blocks es) c)
        = (\<lambda>c. cnt c + count_list (leaf_blocks (e # es)) c)"
      by (auto simp: Mapping_leaf fun_eq_iff)
    with t' have "tracks t' (\<lambda>c. cnt c + count_list (leaf_blocks (e # es)) c)" by simp
    moreover have "walk_mapping_tree (e # es) mapping_pass1_visit dv t = Inr t'"
      using i w by (simp add: Mapping_leaf mapping_pass1_visit_def [of path bt t])
    ultimately show ?thesis by blast
  qed
qed

lemma pass1_tracks:
  assumes "walkable md dev" and "tracks t cnt"
  shows "\<exists>t'. pass1 md t dev = Inr t'
           \<and> tracks t' (\<lambda>c. cnt c + count_list (device_blocks md dev) c)"
proof (cases "mappings_top_level md dev")
  case None
  with assms(1) show ?thesis by (simp add: walkable_def device_fault_def)
next
  case (Some r)
  with assms(1) have "damage_free (single_mapping_tree md r)"
    and "list_all safe (leaf_blocks (single_mapping_tree md r))"
    by (simp_all add: walkable_def device_fault_def device_blocks_def split: if_splits)
  from walk_pass1_tracks [OF this assms(2)] Some show ?thesis
    by (simp add: pass1_def device_blocks_def)
qed

lemma pass1_loop_tracks:
  assumes "\<forall>dev\<in>fst ` set m. walkable md dev" and "tracks t cnt"
  shows "\<exists>t'. pass1_loop md t m = Inr t' \<and> tracks t' (\<lambda>c. cnt c + references md m c)"
  using assms
proof (induction m arbitrary: t cnt)
  case Nil
  then show ?case by (simp add: references_def visited_blocks_def)
next
  case (Cons a m)
  obtain dev dd where a: "a = (dev, dd)" by (cases a)
  from Cons.prems(1) have w: "walkable md dev" and rest: "\<forall>dev\<in>fst ` set m. walkable md dev"
    by (simp_all add: a)
  from pass1_tracks [OF w Cons.prems(2)] obtain t1 where
    p: "pass1 md t dev = Inr t1"
    and t1: "tracks t1 (\<lambda>c. cnt c + count_list (device_blocks md dev) c)"
    by blast
  from Cons.IH [OF rest t1] obtain t' where
    l: "pass1_loop md t1 m = Inr t'"
    and t': "tracks t' (\<lambda>c. cnt c + count_list (device_blocks md dev) c + references md m c)"
    by blast
  have "(\<lambda>c. cnt c + count_list (device_blocks md dev) c + references md m c)
      = (\<lambda>c. cnt c + references md (a # m) c)"
    by (simp add: a references_def visited_blocks_def fun_eq_iff)
  with t' have "tracks t' (\<lambda>c. cnt c + references md (a # m) c)" by simp
  with p l show ?case by (auto simp: a)
qed

lemma classify_iff:
  "(classify n = UNMAPPED \<longleftrightarrow> n = 0) \<and> (classify n = EXCLUSIVE \<longleftrightarrow> n = 1)
   \<and> (classify n = SHARED \<longleftrightarrow> 2 \<le> n)"
  by (cases n rule: classify.cases) simp_all

lemma count_list_distinct: "distinct xs \<Longrightarrow> count_list xs b = (if b \<in> set xs then 1 else 0)"
  by (induction xs) auto

lemma references_distinct:
  assumes "\<forall>dev\<in>fst ` set m. distinct (device_blocks md dev)"
  shows "references md m b = referencing_devices md m b"
  using assms
proof (induction m)
  case Nil
  then show ?case by (simp add: references_def referencing_devices_def visited_blocks_def)
next
  case (Cons a m)
  obtain dev dd where a: "a = (dev, dd)" by (cases a)
  from Cons.prems have d: "distinct (device_blocks md dev)"
    and rest: "\<forall>dev\<in>fst ` set m. distinct (device_blocks md dev)"
    by (simp_all add: a)
  from Cons.IH [OF rest] count_list_distinct [OF d, of b] show ?case
    by (simp add: a references_def referencing_devices_def visited_blocks_def)
qed

lemma pass1_classifies:
  assumes "\<forall>dev\<in>fst ` set m. walkable md dev" and "safe b"
  shows "\<exists>t u. pass1_loop md mapping_set_init m = Inr t
            \<and> get_state t b = Inr (classify (references md m b), u)"
proof -
  from pass1_loop_tracks [OF assms(1) tracks_init] obtain t where
    l: "pass1_loop md mapping_set_init m = Inr t" and t: "tracks t (\<lambda>c. references md m c)"
    by auto
  from get_state_tracks [OF t assms(2)] l show ?thesis by blast
qed

text \<open>
  Claim C1, as amended. When every device of the map can be walked and the blocks are
  safe addresses, the first loop returns, and \<^verbatim>\<open>get_state\<close> then reports for a safe
  block \<open>b\<close> the state that belongs to the number of mapping entries, over all
  devices, that reference \<open>b\<close>: unmapped for none, exclusive for one, shared for two
  or more. This number is the number of devices that reference \<open>b\<close> when no device
  maps a physical block twice. Any other metadata and map with the same visited blocks
  in another order give the same state.
\<close>

theorem pass1_classifies_by_reference_count:
  assumes "\<forall>dev\<in>fst ` set m. walkable md dev" and "safe b"
  shows "(\<exists>t u. pass1_loop md mapping_set_init m = Inr t
            \<and> get_state t b = Inr (classify (references md m b), u))
    \<and> (classify (references md m b) = UNMAPPED \<longleftrightarrow> references md m b = 0)
    \<and> (classify (references md m b) = EXCLUSIVE \<longleftrightarrow> references md m b = 1)
    \<and> (classify (references md m b) = SHARED \<longleftrightarrow> 2 \<le> references md m b)
    \<and> ((\<forall>dev\<in>fst ` set m. distinct (device_blocks md dev)) \<longrightarrow>
          references md m b = referencing_devices md m b)
    \<and> (\<forall>md' m'. (\<forall>dev\<in>fst ` set m'. walkable md' dev)
                  \<and> mset (visited_blocks md' m') = mset (visited_blocks md m) \<longrightarrow>
          (\<exists>t' u'. pass1_loop md' mapping_set_init m' = Inr t'
             \<and> get_state t' b = Inr (classify (references md m b), u')))"
proof -
  have perm: "\<exists>t' u'. pass1_loop md' mapping_set_init m' = Inr t'
             \<and> get_state t' b = Inr (classify (references md m b), u')"
    if w: "\<forall>dev\<in>fst ` set m'. walkable md' dev"
      and p: "mset (visited_blocks md' m') = mset (visited_blocks md m)" for md' m'
  proof -
    from p have "count (mset (visited_blocks md' m')) b = count (mset (visited_blocks md m)) b"
      by simp
    then have "references md' m' b = references md m b"
      by (simp add: references_def count_mset)
    with pass1_classifies [OF w assms(2)] show ?thesis by simp
  qed
  from pass1_classifies [OF assms] classify_iff [of "references md m b"]
    references_distinct [of m md b] perm
  show ?thesis by blast
qed


lemma example_walkable: "walkable example_md 1" "walkable example_md 2"
  by (simp_all add: walkable_def device_fault_def device_blocks_def example_md_def mapping_def
      safe_small)

lemma example_references:
  "references example_md [(1, example_details_A), (2, example_details_B)] 1 = 1"
  "references example_md [(1, example_details_A), (2, example_details_B)] 2 = 1"
  "references example_md [(1, example_details_A), (2, example_details_B)] 3 = 2"
  "references example_md [(1, example_details_A), (2, example_details_B)] 4 = 1"
  by (simp_all add: references_def visited_blocks_def device_blocks_def example_md_def mapping_def)

lemma example_distinct:
  "distinct (device_blocks example_md 1)" "distinct (device_blocks example_md 2)"
  by (simp_all add: device_blocks_def example_md_def mapping_def)

lemma example_devices:
  "referencing_devices example_md [(1, example_details_A), (2, example_details_B)] 3 = 2"
  by (simp add: referencing_devices_def device_blocks_def example_md_def mapping_def)

lemma example_reordered:
  "mset (visited_blocks example_md [(2, example_details_B), (1, example_details_A)])
     = mset (visited_blocks example_md [(1, example_details_A), (2, example_details_B)])"
  by (simp add: visited_blocks_def)

theorem pass1_classifies_by_reference_count_witness:
  "walkable example_md 1 \<and> walkable example_md 2
   \<and> safe 1 \<and> safe 2 \<and> safe 3 \<and> safe 4
   \<and> distinct (device_blocks example_md 1) \<and> distinct (device_blocks example_md 2)
   \<and> references example_md [(1, example_details_A), (2, example_details_B)] 3 = 2
   \<and> referencing_devices example_md [(1, example_details_A), (2, example_details_B)] 3 = 2
   \<and> (\<exists>t u. pass1_loop example_md mapping_set_init
               [(1, example_details_A), (2, example_details_B)] = Inr t
          \<and> get_state t 1 = Inr (EXCLUSIVE, u))
   \<and> (\<exists>t u. pass1_loop example_md mapping_set_init
               [(1, example_details_A), (2, example_details_B)] = Inr t
          \<and> get_state t 2 = Inr (EXCLUSIVE, u))
   \<and> (\<exists>t u. pass1_loop example_md mapping_set_init
               [(1, example_details_A), (2, example_details_B)] = Inr t
          \<and> get_state t 3 = Inr (SHARED, u))
   \<and> (\<exists>t u. pass1_loop example_md mapping_set_init
               [(1, example_details_A), (2, example_details_B)] = Inr t
          \<and> get_state t 4 = Inr (EXCLUSIVE, u))
   \<and> mset (visited_blocks example_md [(2, example_details_B), (1, example_details_A)])
       = mset (visited_blocks example_md [(1, example_details_A), (2, example_details_B)])
   \<and> (\<exists>t u. pass1_loop example_md mapping_set_init
               [(2, example_details_B), (1, example_details_A)] = Inr t
          \<and> get_state t 3 = Inr (SHARED, u))"
proof -
  have w: "\<forall>dev\<in>fst ` set [(1 :: block_address, example_details_A), (2, example_details_B)].
             walkable example_md dev"
    by (simp add: example_walkable)
  have w': "\<forall>dev\<in>fst ` set [(2 :: block_address, example_details_B), (1, example_details_A)].
             walkable example_md dev"
    by (simp add: example_walkable)
  have s: "safe 1" "safe 2" "safe 3" "safe 4" by (simp_all add: safe_small)
  have c: "classify 1 = EXCLUSIVE" "classify 2 = SHARED" by (simp_all add: numeral_2_eq_2)
  note T = pass1_classifies_by_reference_count [OF w]
  from T [OF s(3)] w' example_reordered
  have r: "\<exists>t u. pass1_loop example_md mapping_set_init
               [(2, example_details_B), (1, example_details_A)] = Inr t
          \<and> get_state t 3 = Inr (SHARED, u)"
    unfolding example_references c by blast
  from T [OF s(1), THEN conjunct1] T [OF s(2), THEN conjunct1]
    T [OF s(3), THEN conjunct1] T [OF s(4), THEN conjunct1] r
  show ?thesis
    unfolding example_references c
    using example_walkable s example_distinct example_devices example_reordered by simp
qed


text \<open>
  Claim C1 as stated counts devices. A device whose tree maps two virtual blocks to
  physical block 7 is the only device that references block 7, and the block is shared
  after the first loop.
\<close>

theorem one_device_two_entries_shared:
  "walk_device_tree (details twice_md) details_extractor_visit fatal_details_damage_visit []
     = Inr [(1, twice_details)]
   \<and> referencing_devices twice_md [(1, twice_details)] 7 = 1
   \<and> pass1_loop twice_md mapping_set_init [(1, twice_details)]
       = Inr (mapping_set_init[14 := True, 15 := True])
   \<and> get_state (mapping_set_init[14 := True, 15 := True]) 7
       = Inr (SHARED, mapping_set_init[14 := True, 15 := True])"
  by (simp add: twice_md_def details_extractor_visit_def referencing_devices_def device_blocks_def
      mapping_def pass1_def mapping_pass1_visit_def tracker_eval)


section \<open>Which errors a run can end with\<close>

lemma ensure_size_error: "ensure_size bits i \<noteq> Inl (Runtime_Error w)"
  by (simp add: ensure_size_def split: option.splits)

lemma get_bit_error: "get_bit bits i \<noteq> Inl (Runtime_Error w)"
  using ensure_size_error [of bits i w] by (auto simp: get_bit_def split: sum.splits)

lemma set_bit_ms_error: "set_bit_ms bits i v \<noteq> Inl (Runtime_Error w)"
  using ensure_size_error [of bits i w] by (auto simp: set_bit_ms_def split: sum.splits)

lemma inc_error: "inc bits b \<noteq> Inl (Runtime_Error w)"
  using get_bit_error [of bits "b * 2" w]
  by (auto simp: inc_def set_bit_ms_error split: sum.splits prod.splits)

lemma get_state_error: "get_state bits b \<noteq> Inl (Runtime_Error w)"
  using get_bit_error [of bits "b * 2" w]
  by (auto simp: get_state_def get_bit_error split: sum.splits prod.splits)

lemma mapping_pass1_visit_error: "mapping_pass1_visit path bt t \<noteq> Inl (Runtime_Error w)"
  by (simp add: mapping_pass1_visit_def inc_error)

lemma mapping_pass2_visit_error: "mapping_pass2_visit path bt s \<noteq> Inl (Runtime_Error w)"
  using get_state_error [of "fst s" "block bt" w]
  by (auto simp: mapping_pass2_visit_def split: sum.splits prod.splits)

lemma walk_mapping_tree_Inr:
  "walk_mapping_tree es v fatal_mapping_damage_visit s = Inr s' \<Longrightarrow> damage_free es"
proof (induction es arbitrary: s)
  case Nil
  then show ?case by simp
next
  case (Cons e es)
  then show ?case
    by (cases e)
      (auto simp: fatal_mapping_damage_visit_eq raise_metadata_damage_def split: sum.splits)
qed

lemma walk_mapping_tree_error:
  assumes v: "\<And>path bt s. v path bt s \<noteq> Inl (Runtime_Error w)"
  shows "walk_mapping_tree es v fatal_mapping_damage_visit s = Inl (Runtime_Error w) \<Longrightarrow>
           w = metadata_damage_message \<and> \<not> damage_free es"
proof (induction es arbitrary: s)
  case Nil
  then show ?case by simp
next
  case (Cons e es)
  show ?case
  proof (cases e)
    case (Mapping_damage d)
    with Cons.prems show ?thesis
      by (simp add: fatal_mapping_damage_visit_eq raise_metadata_damage_def)
  next
    case (Mapping_leaf path bt)
    show ?thesis
    proof (cases "v path bt s")
      case (Inl x)
      with Cons.prems v [of path bt s] show ?thesis by (simp add: Mapping_leaf)
    next
      case (Inr s1)
      with Cons.prems have "walk_mapping_tree es v fatal_mapping_damage_visit s1 = Inl (Runtime_Error w)"
        by (simp add: Mapping_leaf)
      from Cons.IH [OF this] show ?thesis by (simp add: Mapping_leaf)
    qed
  qed
qed

lemma pass1_Inr: "pass1 md t dev = Inr t' \<Longrightarrow> device_fault md dev = None"
  by (auto simp: pass1_def device_fault_def split: option.splits dest: walk_mapping_tree_Inr)

lemma pass1_error:
  assumes "pass1 md t dev = Inl (Runtime_Error w)"
  shows "device_fault md dev = Some (Runtime_Error w)"
proof (cases "mappings_top_level md dev")
  case None
  with assms show ?thesis by (simp add: pass1_def device_fault_def)
next
  case (Some r)
  with assms have "walk_mapping_tree (single_mapping_tree md r) mapping_pass1_visit
      fatal_mapping_damage_visit t = Inl (Runtime_Error w)"
    by (simp add: pass1_def)
  from walk_mapping_tree_error [OF mapping_pass1_visit_error this] Some show ?thesis
    by (simp add: device_fault_def)
qed

lemma count_exclusives_Inr:
  "count_exclusives md t dev = Inr r \<Longrightarrow> device_fault md dev = None"
  by (auto simp: count_exclusives_def device_fault_def split: option.splits sum.splits
      dest: walk_mapping_tree_Inr)

lemma count_exclusives_error:
  assumes "count_exclusives md t dev = Inl (Runtime_Error w)"
  shows "device_fault md dev = Some (Runtime_Error w)"
proof (cases "mappings_top_level md dev")
  case None
  with assms show ?thesis by (simp add: count_exclusives_def device_fault_def)
next
  case (Some r)
  with assms have "walk_mapping_tree (single_mapping_tree md r) mapping_pass2_visit
      fatal_mapping_damage_visit (t, 0) = Inl (Runtime_Error w)"
    by (simp add: count_exclusives_def split: sum.splits prod.splits)
  from walk_mapping_tree_error [OF mapping_pass2_visit_error this] Some show ?thesis
    by (simp add: device_fault_def)
qed

lemma pass1_loop_Inr:
  "pass1_loop md t m = Inr t' \<Longrightarrow> \<forall>dev\<in>fst ` set m. device_fault md dev = None"
proof (induction m arbitrary: t)
  case Nil
  then show ?case by simp
next
  case (Cons a m)
  obtain dev dd where a: "a = (dev, dd)" by (cases a)
  from Cons.prems obtain t1 where 1: "pass1 md t dev = Inr t1" and 2: "pass1_loop md t1 m = Inr t'"
    by (auto simp: a split: sum.splits)
  from pass1_Inr [OF 1] Cons.IH [OF 2] show ?case by (simp add: a)
qed

lemma pass1_loop_error:
  "pass1_loop md t m = Inl (Runtime_Error w) \<Longrightarrow>
     \<exists>dev\<in>fst ` set m. device_fault md dev = Some (Runtime_Error w)"
proof (induction m arbitrary: t)
  case Nil
  then show ?case by simp
next
  case (Cons a m)
  obtain dev dd where a: "a = (dev, dd)" by (cases a)
  show ?case
  proof (cases "pass1 md t dev")
    case (Inl e)
    with Cons.prems have "pass1 md t dev = Inl (Runtime_Error w)" by (simp add: a)
    from pass1_error [OF this] show ?thesis by (simp add: a)
  next
    case (Inr t1)
    with Cons.prems have "pass1_loop md t1 m = Inl (Runtime_Error w)" by (simp add: a)
    from Cons.IH [OF this] show ?thesis by (simp add: a)
  qed
qed

lemma report_loop_Inr:
  "report_loop md fl True t m = Inr rows \<Longrightarrow> \<forall>dev\<in>fst ` set m. device_fault md dev = None"
proof (induction m arbitrary: t rows)
  case Nil
  then show ?case by simp
next
  case (Cons a m)
  obtain dev dd where a: "a = (dev, dd)" by (cases a)
  from report_loop_Cons_Inr [OF Cons.prems [unfolded a]] obtain e t' rows' where
    c: "count_exclusives md t dev = Inr (e, t')"
    and r: "report_loop md fl True t' m = Inr rows'"
    by auto
  from count_exclusives_Inr [OF c] Cons.IH [OF r] show ?case by (simp add: a)
qed

lemma report_loop_error:
  "report_loop md fl sef t m = Inl (Runtime_Error w) \<Longrightarrow>
     sef \<and> (\<exists>dev\<in>fst ` set m. device_fault md dev = Some (Runtime_Error w))"
proof (induction m arbitrary: t)
  case Nil
  then show ?case by simp
next
  case (Cons a m)
  obtain dev dd where a: "a = (dev, dd)" by (cases a)
  show ?case
  proof (cases "if sef then count_exclusives md t dev else Inr (0, t)")
    case (Inl e)
    with Cons.prems have "sef" and "count_exclusives md t dev = Inl (Runtime_Error w)"
      by (auto simp: a split: if_splits)
    with count_exclusives_error [of md t dev w] show ?thesis by (simp add: a)
  next
    case (Inr p)
    obtain e t1 where p: "p = (e, t1)" by (cases p)
    from Cons.prems Inr have "report_loop md fl sef t1 m = Inl (Runtime_Error w)"
      by (simp add: a p split: sum.splits)
    from Cons.IH [OF this] show ?thesis by (simp add: a)
  qed
qed

lemma walk_device_tree_damage:
  assumes "Device_damage d \<in> set es"
  shows "walk_device_tree es details_extractor_visit fatal_details_damage_visit m0
           = Inl (Runtime_Error metadata_damage_message)"
  using assms
proof (induction es arbitrary: m0)
  case Nil
  then show ?case by simp
next
  case (Cons e es)
  show ?case
  proof (cases e)
    case (Device_damage d')
    then show ?thesis by (simp add: fatal_details_damage_visit_eq raise_metadata_damage_def)
  next
    case (Device_leaf dev dd)
    with Cons.prems have "Device_damage d \<in> set es" by simp
    from Cons.IH [OF this] show ?thesis
      by (simp add: Device_leaf details_extractor_visit_def [of dev dd m0])
  qed
qed

lemma walk_device_tree_error:
  "walk_device_tree es details_extractor_visit fatal_details_damage_visit m0 = Inl e \<Longrightarrow>
     e = Runtime_Error metadata_damage_message \<and> (\<exists>d. Device_damage d \<in> set es)"
proof (induction es arbitrary: m0)
  case Nil
  then show ?case by simp
next
  case (Cons x es)
  show ?case
  proof (cases x)
    case (Device_damage d')
    with Cons.prems show ?thesis
      by (auto simp: fatal_details_damage_visit_eq raise_metadata_damage_def)
  next
    case (Device_leaf dev dd)
    with Cons.prems have "walk_device_tree es details_extractor_visit fatal_details_damage_visit
        (dd_insert dev dd m0) = Inl e"
      by (simp add: details_extractor_visit_def [of dev dd m0])
    from Cons.IH [OF this] show ?thesis by auto
  qed
qed

lemma catalogue_ids:
  assumes "walk_device_tree es details_extractor_visit fatal_details_damage_visit [] = Inr m"
  shows "fst ` set m = set (device_ids es)"
  using walk_device_tree_Inr [OF assms] by simp

lemma ls_body_error:
  assumes "ls_body md fl sef = Inl (Runtime_Error w)"
  shows "(w = metadata_damage_message \<and> (\<exists>d. Device_damage d \<in> set (details md)))
       \<or> (sef \<and> (\<exists>dev\<in>set (device_ids (details md)). device_fault md dev = Some (Runtime_Error w)))"
proof (cases "walk_device_tree (details md) details_extractor_visit fatal_details_damage_visit []")
  case (Inl e)
  from walk_device_tree_error [OF Inl] assms Inl show ?thesis by (simp add: ls_body_def)
next
  case (Inr m)
  note ids = catalogue_ids [OF Inr]
  show ?thesis
  proof (cases "if sef then pass1_loop md mapping_set_init m else Inr mapping_set_init")
    case (Inl e)
    with assms Inr have "sef" and "pass1_loop md mapping_set_init m = Inl (Runtime_Error w)"
      by (auto simp: ls_body_def split: if_splits)
    with pass1_loop_error [of md mapping_set_init m w] ids show ?thesis by simp
  next
    case t: (Inr t)
    with assms Inr have "report_loop md fl sef t m = Inl (Runtime_Error w)"
      by (simp add: ls_body_def split: sum.splits)
    from report_loop_error [OF this] ids show ?thesis by simp
  qed
qed

lemma ls_body_Inr_sound:
  assumes "ls_body md fl sef = Inr rows"
  shows "(\<forall>d. Device_damage d \<notin> set (details md))
       \<and> (sef \<longrightarrow> (\<forall>dev\<in>set (device_ids (details md)). device_fault md dev = None))"
proof -
  from ls_body_Inr [OF assms] obtain m t where
    w: "walk_device_tree (details md) details_extractor_visit fatal_details_damage_visit [] = Inr m"
    and p: "(if sef then pass1_loop md mapping_set_init m else Inr mapping_set_init) = Inr t"
    by blast
  from walk_device_tree_Inr [OF w] have nd: "\<forall>d. Device_damage d \<notin> set (details md)"
    and ids: "fst ` set m = set (device_ids (details md))"
    by simp_all
  have "\<forall>dev\<in>set (device_ids (details md)). device_fault md dev = None" if sef
  proof -
    from p that have "pass1_loop md mapping_set_init m = Inr t" by simp
    from pass1_loop_Inr [OF this] ids show ?thesis by simp
  qed
  with nd show ?thesis by blast
qed


section \<open>No fault of the set on safe blocks\<close>

lemma walk_mapping_tree_safe:
  assumes step: "\<And>path bt s. I s \<Longrightarrow> safe (block bt) \<Longrightarrow> \<exists>s'. v path bt s = Inr s' \<and> I s'"
  shows "I s \<Longrightarrow> list_all safe (leaf_blocks es) \<Longrightarrow>
     (\<exists>s'. walk_mapping_tree es v fatal_mapping_damage_visit s = Inr s' \<and> I s')
     \<or> walk_mapping_tree es v fatal_mapping_damage_visit s
          = Inl (Runtime_Error metadata_damage_message)"
proof (induction es arbitrary: s)
  case Nil
  then show ?case by simp
next
  case (Cons e es)
  show ?case
  proof (cases e)
    case (Mapping_damage d)
    then show ?thesis by (simp add: fatal_mapping_damage_visit_eq raise_metadata_damage_def)
  next
    case (Mapping_leaf path bt)
    with Cons.prems have b: "safe (block bt)" and rest: "list_all safe (leaf_blocks es)"
      by simp_all
    from step [OF Cons.prems(1) b, of path] obtain s1 where v: "v path bt s = Inr s1" and "I s1"
      by blast
    from Cons.IH [OF \<open>I s1\<close> rest] v show ?thesis by (simp add: Mapping_leaf)
  qed
qed

lemma mapping_pass1_visit_safe:
  "capacity_ok t \<Longrightarrow> safe (block bt) \<Longrightarrow>
     \<exists>t'. mapping_pass1_visit path bt t = Inr t' \<and> capacity_ok t'"
  by (simp add: mapping_pass1_visit_def inc_total)

lemma mapping_pass2_visit_safe:
  assumes "capacity_ok (fst s)" and "safe (block bt)"
  shows "\<exists>s'. mapping_pass2_visit path bt s = Inr s' \<and> capacity_ok (fst s')"
proof -
  from get_state_total [OF assms] obtain st u where
    "get_state (fst s) (block bt) = Inr (st, u)" "capacity_ok u" by blast
  then show ?thesis by (simp add: mapping_pass2_visit_def)
qed

lemma pass1_safe:
  assumes "capacity_ok t" and "list_all safe (device_blocks md dev)"
  shows "(\<exists>t'. pass1 md t dev = Inr t' \<and> capacity_ok t')
       \<or> (\<exists>w. pass1 md t dev = Inl (Runtime_Error w))"
proof (cases "mappings_top_level md dev")
  case None
  then show ?thesis by (simp add: pass1_def)
next
  case (Some r)
  with assms(2) have "list_all safe (leaf_blocks (single_mapping_tree md r))"
    by (simp add: device_blocks_def)
  from walk_mapping_tree_safe [where I = capacity_ok and v = mapping_pass1_visit,
      OF mapping_pass1_visit_safe assms(1) this] Some
  show ?thesis by (auto simp: pass1_def)
qed

lemma count_exclusives_safe:
  assumes "capacity_ok t" and "list_all safe (device_blocks md dev)"
  shows "(\<exists>e t'. count_exclusives md t dev = Inr (e, t') \<and> capacity_ok t')
       \<or> (\<exists>w. count_exclusives md t dev = Inl (Runtime_Error w))"
proof (cases "mappings_top_level md dev")
  case None
  then show ?thesis by (simp add: count_exclusives_def)
next
  case (Some r)
  with assms(2) have sf: "list_all safe (leaf_blocks (single_mapping_tree md r))"
    by (simp add: device_blocks_def)
  have "capacity_ok (fst (t, 0 :: block_address))" using assms(1) by simp
  from walk_mapping_tree_safe [where I = "\<lambda>s. capacity_ok (fst s)" and v = mapping_pass2_visit,
      OF mapping_pass2_visit_safe this sf] Some
  show ?thesis by (auto simp: count_exclusives_def)
qed

lemma pass1_loop_safe:
  assumes "capacity_ok t" and "\<forall>dev\<in>fst ` set m. list_all safe (device_blocks md dev)"
  shows "(\<exists>t'. pass1_loop md t m = Inr t' \<and> capacity_ok t')
       \<or> (\<exists>w. pass1_loop md t m = Inl (Runtime_Error w))"
  using assms
proof (induction m arbitrary: t)
  case Nil
  then show ?case by simp
next
  case (Cons a m)
  obtain dev dd where a: "a = (dev, dd)" by (cases a)
  from Cons.prems(2) have sf: "list_all safe (device_blocks md dev)"
    and rest: "\<forall>dev\<in>fst ` set m. list_all safe (device_blocks md dev)"
    by (simp_all add: a)
  from pass1_safe [OF Cons.prems(1) sf] show ?case
  proof
    assume "\<exists>t'. pass1 md t dev = Inr t' \<and> capacity_ok t'"
    then obtain t1 where p: "pass1 md t dev = Inr t1" and "capacity_ok t1" by blast
    from Cons.IH [OF \<open>capacity_ok t1\<close> rest] p show ?thesis by (simp add: a)
  next
    assume "\<exists>w. pass1 md t dev = Inl (Runtime_Error w)"
    then show ?thesis by (auto simp: a)
  qed
qed

lemma report_loop_safe:
  assumes "capacity_ok t" and "\<forall>dev\<in>fst ` set m. list_all safe (device_blocks md dev)"
  shows "(\<exists>rows. report_loop md fl sef t m = Inr rows)
       \<or> (\<exists>w. report_loop md fl sef t m = Inl (Runtime_Error w))"
  using assms
proof (induction m arbitrary: t)
  case Nil
  then show ?case by simp
next
  case (Cons a m)
  obtain dev dd where a: "a = (dev, dd)" by (cases a)
  from Cons.prems(2) have sf: "list_all safe (device_blocks md dev)"
    and rest: "\<forall>dev\<in>fst ` set m. list_all safe (device_blocks md dev)"
    by (simp_all add: a)
  have "(\<exists>e t'. (if sef then count_exclusives md t dev else Inr (0, t)) = Inr (e, t') \<and> capacity_ok t')
      \<or> (\<exists>w. (if sef then count_exclusives md t dev else Inr (0, t)) = Inl (Runtime_Error w))"
    using count_exclusives_safe [OF Cons.prems(1) sf] Cons.prems(1) by simp
  then show ?case
  proof
    assume "\<exists>e t'. (if sef then count_exclusives md t dev else Inr (0, t)) = Inr (e, t')
              \<and> capacity_ok t'"
    then obtain e t1 where
      c: "(if sef then count_exclusives md t dev else Inr (0, t)) = Inr (e, t1)"
      and "capacity_ok t1" by blast
    from Cons.IH [OF \<open>capacity_ok t1\<close> rest] c show ?thesis by (auto simp: a)
  next
    assume "\<exists>w. (if sef then count_exclusives md t dev else Inr (0, t)) = Inl (Runtime_Error w)"
    then show ?thesis by (auto simp: a)
  qed
qed

lemma ls_body_safe:
  assumes "blocks_safe md"
  shows "(\<exists>rows. ls_body md fl sef = Inr rows) \<or> (\<exists>w. ls_body md fl sef = Inl (Runtime_Error w))"
proof (cases "walk_device_tree (details md) details_extractor_visit fatal_details_damage_visit []")
  case (Inl e)
  from walk_device_tree_error [OF Inl] Inl show ?thesis by (simp add: ls_body_def)
next
  case (Inr m)
  from catalogue_ids [OF Inr] assms
  have sf: "\<forall>dev\<in>fst ` set m. list_all safe (device_blocks md dev)"
    by (simp add: blocks_safe_def)
  have "(\<exists>t'. (if sef then pass1_loop md mapping_set_init m else Inr mapping_set_init) = Inr t'
             \<and> capacity_ok t')
      \<or> (\<exists>w. (if sef then pass1_loop md mapping_set_init m else Inr mapping_set_init)
             = Inl (Runtime_Error w))"
    using pass1_loop_safe [OF capacity_ok_init sf] capacity_ok_init by simp
  then show ?thesis
  proof
    assume "\<exists>t'. (if sef then pass1_loop md mapping_set_init m else Inr mapping_set_init) = Inr t'
             \<and> capacity_ok t'"
    then obtain t where
      p: "(if sef then pass1_loop md mapping_set_init m else Inr mapping_set_init) = Inr t"
      and "capacity_ok t" by blast
    from report_loop_safe [OF \<open>capacity_ok t\<close> sf, of fl sef] Inr p show ?thesis
      by (auto simp: ls_body_def)
  next
    assume "\<exists>w. (if sef then pass1_loop md mapping_set_init m else Inr mapping_set_init)
             = Inl (Runtime_Error w)"
    with Inr show ?thesis by (auto simp: ls_body_def)
  qed
qed

lemma damage_free_iff: "damage_free es \<longleftrightarrow> (\<forall>d. Mapping_damage d \<notin> set es)"
proof (induction es)
  case Nil
  then show ?case by simp
next
  case (Cons e es)
  then show ?case by (cases e) auto
qed

lemma device_fault_cases:
  "device_fault md dev =
     (if mappings_top_level md dev = None then Some (Runtime_Error missing_root_message)
      else if \<exists>root d. mappings_top_level md dev = Some root
                \<and> Mapping_damage d \<in> set (single_mapping_tree md root)
      then Some (Runtime_Error metadata_damage_message)
      else None)"
  by (auto simp: device_fault_def damage_free_iff split: option.splits)


section \<open>Damage and missing roots\<close>

lemma ls_Inr_cases:
  assumes "ls md fl = Inr r"
  shows "(\<exists>rows. ls_impl md fl = Inr rows \<and> r = \<lparr>exit_code = 0, out = rows, cerr = []\<rparr>)
       \<or> (\<exists>w. ls_impl md fl = Inl (Runtime_Error w) \<and> r = \<lparr>exit_code = 1, out = [], cerr = [w]\<rparr>)"
proof (cases "ls_impl md fl")
  case (Inr rows)
  with assms show ?thesis by (auto simp: ls_def)
next
  case (Inl e)
  with assms show ?thesis by (cases e) (auto simp: ls_def)
qed

lemma damage_no_report:
  assumes "(\<exists>d. Device_damage d \<in> set (details md))
     \<or> (pass1_needed (field_list fl) \<and> (\<exists>dev\<in>set (device_ids (details md)).
            mappings_top_level md dev = None
          \<or> (\<exists>root d. mappings_top_level md dev = Some root
                \<and> Mapping_damage d \<in> set (single_mapping_tree md root))))"
  shows "ls_impl md fl \<noteq> Inr rows"
proof
  assume "ls_impl md fl = Inr rows"
  then have "ls_body md fl (pass1_needed (field_list fl)) = Inr rows" by (simp add: ls_impl_def)
  from ls_body_Inr_sound [OF this]
  have nd: "\<forall>d. Device_damage d \<notin> set (details md)"
    and nf: "pass1_needed (field_list fl) \<longrightarrow>
               (\<forall>dev\<in>set (device_ids (details md)). device_fault md dev = None)"
    by simp_all
  from assms nd obtain dev where n: "pass1_needed (field_list fl)"
    and dev: "dev \<in> set (device_ids (details md))"
    and f: "mappings_top_level md dev = None
          \<or> (\<exists>root d. mappings_top_level md dev = Some root
                \<and> Mapping_damage d \<in> set (single_mapping_tree md root))"
    by blast
  from f have "device_fault md dev \<noteq> None" by (auto simp: device_fault_cases)
  moreover from nf n have "\<forall>dev\<in>set (device_ids (details md)). device_fault md dev = None"
    by simp
  with dev have "device_fault md dev = None" by simp
  ultimately show False by simp
qed

lemma ls_impl_error_messages:
  assumes "ls_impl md fl = Inl (Runtime_Error w)"
  shows "w = metadata_damage_message \<or> w = missing_root_message"
proof -
  from assms have "ls_body md fl (pass1_needed (field_list fl)) = Inl (Runtime_Error w)"
    by (simp add: ls_impl_def)
  from ls_body_error [OF this] show ?thesis
    by (auto simp: device_fault_cases split: if_splits)
qed

text \<open>
  Claim C4: when the walk of the device tree delivers a damage notification, or a field
  that needs the passes is requested and some device of the device tree has no root in
  the top-level tree or a damage notification in the walk of its mapping tree, then
  \<^verbatim>\<open>ls_\<close> does not return a grid: \<^verbatim>\<open>grid.render\<close> is not reached, whatever was
  scanned before. Whenever \<^verbatim>\<open>ls\<close> returns, the exit code is 1, nothing was written
  to \<^verbatim>\<open>out\<close> and \<^verbatim>\<open>cerr\<close> has one of the two messages; it does return when the
  mapped blocks are safe addresses.
\<close>

theorem damage_aborts_without_rows:
  assumes "(\<exists>d. Device_damage d \<in> set (details md))
     \<or> (pass1_needed (field_list fl) \<and> (\<exists>dev\<in>set (device_ids (details md)).
            mappings_top_level md dev = None
          \<or> (\<exists>root d. mappings_top_level md dev = Some root
                \<and> Mapping_damage d \<in> set (single_mapping_tree md root))))"
  shows "(\<exists>e. ls_impl md fl = Inl e)
    \<and> (\<forall>r. ls md fl = Inr r \<longrightarrow>
          exit_code r = 1 \<and> out r = []
          \<and> (cerr r = [metadata_damage_message] \<or> cerr r = [missing_root_message]))
    \<and> (blocks_safe md \<longrightarrow> (\<exists>w. ls md fl = Inr \<lparr>exit_code = 1, out = [], cerr = [w]\<rparr>))"
proof -
  have 1: "\<exists>e. ls_impl md fl = Inl e"
    using damage_no_report [OF assms] by (cases "ls_impl md fl") auto
  have 2: "exit_code r = 1 \<and> out r = []
          \<and> (cerr r = [metadata_damage_message] \<or> cerr r = [missing_root_message])"
    if "ls md fl = Inr r" for r
  proof -
    from ls_Inr_cases [OF that] damage_no_report [OF assms]
    obtain w where w: "ls_impl md fl = Inl (Runtime_Error w)"
      and r: "r = \<lparr>exit_code = 1, out = [], cerr = [w]\<rparr>"
      by blast
    from ls_impl_error_messages [OF w] r show ?thesis by auto
  qed
  have 3: "\<exists>w. ls md fl = Inr \<lparr>exit_code = 1, out = [], cerr = [w]\<rparr>" if "blocks_safe md"
  proof -
    from ls_body_safe [OF that, of fl "pass1_needed (field_list fl)"] damage_no_report [OF assms]
    obtain w where "ls_impl md fl = Inl (Runtime_Error w)"
      by (auto simp: ls_impl_def)
    then show ?thesis by (auto simp: ls_def)
  qed
  from 1 2 3 show ?thesis by blast
qed

lemma damaged_md_facts:
  "pass1_needed (field_list block_fields)"
  "device_ids (details damaged_md) = [2, 1]"
  "mappings_top_level damaged_md 1 = Some 100"
  "mappings_top_level damaged_md 2 = Some 200"
  "single_mapping_tree damaged_md 200
     = [mapping 0 3, Mapping_damage (missing_mappings ''missing mappings of device 2'')]"
  "blocks_safe damaged_md"
  by (simp_all add: block_fields_def damaged_md_def blocks_safe_def device_blocks_def mapping_def
      safe_small)

lemma damaged_md_damage:
  "Mapping_damage (missing_mappings ''missing mappings of device 2'')
     \<in> set (single_mapping_tree damaged_md 200)"
  "2 \<in> set (device_ids (details damaged_md))"
  by (simp_all add: damaged_md_facts)

lemma damaged_md_roots:
  "\<forall>dev\<in>set (device_ids (details damaged_md)). mappings_top_level damaged_md dev \<noteq> None"
  by (simp add: damaged_md_facts)

theorem damage_aborts_without_rows_witness:
  "pass1_needed (field_list block_fields)
   \<and> device_ids (details damaged_md) = [2, 1]
   \<and> mappings_top_level damaged_md 2 = Some 200
   \<and> single_mapping_tree damaged_md 200
       = [mapping 0 3, Mapping_damage (missing_mappings ''missing mappings of device 2'')]
   \<and> pass1 damaged_md mapping_set_init 1 = Inr (mapping_set_init[2 := True, 4 := True, 6 := True])
   \<and> blocks_safe damaged_md
   \<and> (\<exists>e. ls_impl damaged_md block_fields = Inl e)
   \<and> (\<exists>w. ls damaged_md block_fields = Inr \<lparr>exit_code = 1, out = [], cerr = [w]\<rparr>)"
proof -
  have h: "(\<exists>d. Device_damage d \<in> set (details damaged_md))
     \<or> (pass1_needed (field_list block_fields) \<and> (\<exists>dev\<in>set (device_ids (details damaged_md)).
            mappings_top_level damaged_md dev = None
          \<or> (\<exists>root d. mappings_top_level damaged_md dev = Some root
                \<and> Mapping_damage d \<in> set (single_mapping_tree damaged_md root))))"
    using damaged_md_damage damaged_md_facts(1,4) by blast
  have p: "pass1 damaged_md mapping_set_init 1
      = Inr (mapping_set_init[2 := True, 4 := True, 6 := True])"
    by (simp add: pass1_def damaged_md_def mapping_def mapping_pass1_visit_def tracker_eval)
  from damage_aborts_without_rows [OF h] damaged_md_facts p show ?thesis by simp
qed

section \<open>The diagnostic of damage\<close>

text \<open>
  Claim C5, as amended. For every damage notification, of either kind, in the device
  tree or in the mapping tree of any device, the error is the one fixed message of
  \<^verbatim>\<open>raise_metadata_damage\<close>, which names \<^verbatim>\<open>thin_check\<close> and neither the kind of
  damage nor the device. (For damage in a mapping tree the statement takes the roots of
  all devices to be present and the mapped blocks to be safe addresses, so that nothing
  else ends the run first.)
\<close>

theorem damage_error_is_fixed_message:
  assumes "(\<exists>d. Device_damage d \<in> set (details md))
     \<or> (pass1_needed (field_list fl) \<and> blocks_safe md
        \<and> (\<forall>dev\<in>set (device_ids (details md)). mappings_top_level md dev \<noteq> None)
        \<and> (\<exists>dev\<in>set (device_ids (details md)). \<exists>root d.
              mappings_top_level md dev = Some root
            \<and> Mapping_damage d \<in> set (single_mapping_tree md root)))"
  shows "ls md fl = Inr \<lparr>exit_code = 1, out = [], cerr = [metadata_damage_message]\<rparr>
    \<and> metadata_damage_message = ''metadata contains errors (run thin_check for details).''
    \<and> fatal_mapping_damage_visit d' = Inl (Runtime_Error metadata_damage_message)
    \<and> fatal_details_damage_visit d' = Inl (Runtime_Error metadata_damage_message)"
proof -
  have "ls_impl md fl = Inl (Runtime_Error metadata_damage_message)"
    using assms
  proof
    assume "\<exists>d. Device_damage d \<in> set (details md)"
    then obtain d where "Device_damage d \<in> set (details md)" ..
    from walk_device_tree_damage [OF this] show ?thesis
      by (simp add: ls_impl_def ls_body_def)
  next
    assume a: "pass1_needed (field_list fl) \<and> blocks_safe md
        \<and> (\<forall>dev\<in>set (device_ids (details md)). mappings_top_level md dev \<noteq> None)
        \<and> (\<exists>dev\<in>set (device_ids (details md)). \<exists>root d.
              mappings_top_level md dev = Some root
            \<and> Mapping_damage d \<in> set (single_mapping_tree md root))"
    then have h: "(\<exists>d. Device_damage d \<in> set (details md))
       \<or> (pass1_needed (field_list fl) \<and> (\<exists>dev\<in>set (device_ids (details md)).
            mappings_top_level md dev = None
          \<or> (\<exists>root d. mappings_top_level md dev = Some root
                \<and> Mapping_damage d \<in> set (single_mapping_tree md root))))"
      by blast
    from a have "blocks_safe md" by simp
    from ls_body_safe [OF this, of fl "pass1_needed (field_list fl)"] damage_no_report [OF h]
    obtain w where w: "ls_impl md fl = Inl (Runtime_Error w)"
      by (auto simp: ls_impl_def)
    then have "ls_body md fl (pass1_needed (field_list fl)) = Inl (Runtime_Error w)"
      by (simp add: ls_impl_def)
    from ls_body_error [OF this] a have "w = metadata_damage_message"
      by (auto simp: device_fault_cases split: if_splits)
    with w show ?thesis by simp
  qed
  then show ?thesis
    by (simp add: ls_def metadata_damage_message_def fatal_mapping_damage_visit_eq
        fatal_details_damage_visit_eq raise_metadata_damage_def)
qed

theorem damage_error_is_fixed_message_witness:
  "pass1_needed (field_list block_fields) \<and> blocks_safe damaged_md
   \<and> device_ids (details damaged_md) = [2, 1]
   \<and> mappings_top_level damaged_md 1 = Some 100
   \<and> mappings_top_level damaged_md 2 = Some 200
   \<and> single_mapping_tree damaged_md 200
       = [mapping 0 3, Mapping_damage (missing_mappings ''missing mappings of device 2'')]
   \<and> ls damaged_md block_fields
       = Inr \<lparr>exit_code = 1, out = [], cerr = [metadata_damage_message]\<rparr>"
proof -
  have h: "(\<exists>d. Device_damage d \<in> set (details damaged_md))
     \<or> (pass1_needed (field_list block_fields) \<and> blocks_safe damaged_md
        \<and> (\<forall>dev\<in>set (device_ids (details damaged_md)). mappings_top_level damaged_md dev \<noteq> None)
        \<and> (\<exists>dev\<in>set (device_ids (details damaged_md)). \<exists>root d.
              mappings_top_level damaged_md dev = Some root
            \<and> Mapping_damage d \<in> set (single_mapping_tree damaged_md root)))"
    using damaged_md_damage damaged_md_roots damaged_md_facts(1,4,6) by blast
  from damage_error_is_fixed_message [OF h] damaged_md_facts show ?thesis by simp
qed

text \<open>
  Claim C5 as stated has the diagnostic name the condition. Missing mappings in the tree
  of device 2 and missing devices in the device tree end the run with the same message.
\<close>

theorem damage_diagnostic_same_for_all_kinds:
  "ls damaged_md block_fields = Inr \<lparr>exit_code = 1, out = [], cerr = [metadata_damage_message]\<rparr>
   \<and> ls damaged_devices_md block_fields
       = Inr \<lparr>exit_code = 1, out = [], cerr = [metadata_damage_message]\<rparr>
   \<and> single_mapping_tree damaged_md 200
       = [mapping 0 3, Mapping_damage (missing_mappings ''missing mappings of device 2'')]
   \<and> details damaged_devices_md
       = [Device_leaf 2 example_details_B,
          Device_damage (missing_devices ''missing device details'')]
   \<and> fatal_mapping_damage_visit (missing_mappings ''missing mappings of device 2'')
       = fatal_details_damage_visit (missing_devices ''missing device details'')"
proof -
  have c: "walk_device_tree (details damaged_md) details_extractor_visit
      fatal_details_damage_visit [] = Inr [(1, example_details_A), (2, example_details_B)]"
    by (simp add: damaged_md_def details_extractor_visit_def)
  have p: "pass1_loop damaged_md mapping_set_init [(1, example_details_A), (2, example_details_B)]
      = Inl (Runtime_Error metadata_damage_message)"
    by (simp add: pass1_def damaged_md_def mapping_def mapping_pass1_visit_def tracker_eval
        raise_metadata_damage_def)
  have 1: "ls_impl damaged_md block_fields = Inl (Runtime_Error metadata_damage_message)"
    unfolding ls_impl_def ls_body_def
    by (simp only: damaged_md_facts(1) c p sum.case if_True)
  have 2: "ls_impl damaged_devices_md block_fields = Inl (Runtime_Error metadata_damage_message)"
    by (simp add: ls_impl_def ls_body_def damaged_devices_md_def details_extractor_visit_def
        raise_metadata_damage_def)
  show ?thesis
    by (simp add: ls_def 1 2 damaged_md_facts raise_metadata_damage_def)
      (simp add: damaged_devices_md_def)
qed


section \<open>The mapped-block count of the device tree\<close>

lemma recount_dd_insert:
  "dd_insert dev (dd\<lparr>mapped_blocks := g dev\<rparr>) (recount g m) = recount g (dd_insert dev dd m)"
  by (induction m) (auto simp: recount_def)

lemma walk_with_mapped_blocks:
  "walk_device_tree (with_mapped_blocks g es) details_extractor_visit fatal_details_damage_visit
       (recount g m0)
     = map_sum id (recount g)
         (walk_device_tree es details_extractor_visit fatal_details_damage_visit m0)"
proof (induction es arbitrary: m0)
  case Nil
  then show ?case by simp
next
  case (Cons e es)
  show ?case
  proof (cases e)
    case (Device_damage d)
    then show ?thesis by (simp add: fatal_details_damage_visit_eq raise_metadata_damage_def)
  next
    case (Device_leaf dev dd)
    from Cons.IH [of "dd_insert dev dd m0"] show ?thesis
      by (simp add: Device_leaf details_extractor_visit_def [of dev dd m0]
          details_extractor_visit_def [of dev "dd\<lparr>mapped_blocks := g dev\<rparr>" "recount g m0"]
          recount_dd_insert)
  qed
qed

lemma pass1_details [simp]: "pass1 (md\<lparr>details := ds\<rparr>) t dev = pass1 md t dev"
  by (simp add: pass1_def split: option.splits)

lemma count_exclusives_details [simp]:
  "count_exclusives (md\<lparr>details := ds\<rparr>) t dev = count_exclusives md t dev"
  by (simp add: count_exclusives_def split: option.splits)

lemma pass1_loop_recount:
  "pass1_loop (md\<lparr>details := ds\<rparr>) t (recount g m) = pass1_loop md t m"
proof (induction m arbitrary: t)
  case Nil
  then show ?case by (simp add: recount_def)
next
  case (Cons a m)
  obtain dev dd where a: "a = (dev, dd)" by (cases a)
  from Cons.IH show ?case by (simp add: a recount_def split: sum.splits)
qed

lemma report_loop_recount_True:
  "map_sum id length (report_loop (md\<lparr>details := ds\<rparr>) fl True t (recount g m))
     = map_sum id length (report_loop md fl True t m)"
proof (induction m arbitrary: t)
  case Nil
  then show ?case by (simp add: recount_def)
next
  case (Cons a m)
  obtain dev dd where a: "a = (dev, dd)" by (cases a)
  show ?case
  proof (cases "count_exclusives md t dev")
    case (Inl e)
    then show ?thesis by (simp add: a recount_def)
  next
    case (Inr p)
    obtain e t1 where p: "p = (e, t1)" by (cases p)
    from Cons.IH [of t1] have
      "map_sum id length (report_loop (md\<lparr>details := ds\<rparr>) fl True t1 (recount g m))
         = map_sum id length (report_loop md fl True t1 m)" .
    then show ?thesis
      using Inr by (auto simp: a p recount_def split: sum.splits)
  qed
qed

lemma report_loop_recount:
  "map_sum id length (report_loop (md\<lparr>details := ds\<rparr>) fl sef t (recount g m))
     = map_sum id length (report_loop md fl sef t m)"
proof (cases sef)
  case True
  then show ?thesis by (simp add: report_loop_recount_True)
next
  case False
  then show ?thesis by (simp add: report_loop_skipped recount_def)
qed

lemma ls_body_recount:
  "map_sum id length (ls_body (md\<lparr>details := with_mapped_blocks g (details md)\<rparr>) fl sef)
     = map_sum id length (ls_body md fl sef)"
proof (cases "walk_device_tree (details md) details_extractor_visit fatal_details_damage_visit []")
  case (Inl e)
  with walk_with_mapped_blocks [of g "details md" "[]"] show ?thesis
    by (simp add: ls_body_def recount_def)
next
  case (Inr m)
  with walk_with_mapped_blocks [of g "details md" "[]"]
  have w: "walk_device_tree (with_mapped_blocks g (details md)) details_extractor_visit
      fatal_details_damage_visit [] = Inr (recount g m)"
    by (simp add: recount_def)
  show ?thesis
  proof (cases "if sef then pass1_loop md mapping_set_init m else Inr mapping_set_init")
    case (Inl e)
    then show ?thesis
      using Inr w by (simp add: ls_body_def pass1_loop_recount split: if_splits)
  next
    case t: (Inr t)
    from report_loop_recount
      [where md = md and ds = "with_mapped_blocks g (details md)" and fl = fl and sef = sef
         and t = t and g = g and m = m]
    show ?thesis
      using Inr w t
      by (auto simp: ls_body_def pass1_loop_recount split: if_splits sum.splits)
  qed
qed

lemma ls_impl_errors:
  "(\<exists>rows. ls_impl md fl = Inr rows)
   \<or> ls_impl md fl = Inl (Runtime_Error metadata_damage_message)
   \<or> ls_impl md fl = Inl (Runtime_Error missing_root_message)
   \<or> ls_impl md fl = Inl Out_Of_Range
   \<or> ls_impl md fl = Inl Non_Termination"
proof (cases "ls_impl md fl")
  case (Inr rows)
  then show ?thesis by simp
next
  case (Inl e)
  show ?thesis
  proof (cases e)
    case (Runtime_Error w)
    with Inl ls_impl_error_messages [of md fl w] show ?thesis by auto
  qed (use Inl in simp_all)
qed

text \<open>
  Claim C3, as amended. The mapped-block count of the device details is not compared
  with the number of leaves visited: replacing the counts of all devices by any others
  changes neither whether the run ends with an error, nor the error, nor the number of
  rows. A run ends with a grid, with one of the two messages, or with a fault of the
  set; there is no further class of error.
\<close>

theorem count_mismatch_not_checked:
  "map_sum id length (ls_impl (md\<lparr>details := with_mapped_blocks g (details md)\<rparr>) fl)
     = map_sum id length (ls_impl md fl)
   \<and> ((\<exists>rows. ls_impl md fl = Inr rows)
      \<or> ls_impl md fl = Inl (Runtime_Error metadata_damage_message)
      \<or> ls_impl md fl = Inl (Runtime_Error missing_root_message)
      \<or> ls_impl md fl = Inl Out_Of_Range
      \<or> ls_impl md fl = Inl Non_Termination)"
  using ls_body_recount [where md = md and g = g and fl = fl
      and sef = "pass1_needed (field_list fl)"] ls_impl_errors [of md fl]
  by (simp add: ls_impl_def)

text \<open>
  Claim C3 as stated has a mismatch signalled. Device 1 has a mapped-block count of 1
  and two leaves, both exclusive: the run returns the row with 1 mapped, 2 exclusive and
  \<open>1 - 2\<close> shared blocks in 64 bits.
\<close>

theorem count_mismatch_reported:
  "mapped_blocks mismatch_details = 1
   \<and> details mismatch_md = [Device_leaf 1 mismatch_details]
   \<and> length (device_blocks mismatch_md 1) = 2
   \<and> ls_impl mismatch_md block_fields
       = Inr [[Number 1, Number 1, Number 2, Number 18446744073709551615]]"
proof -
  have c: "walk_device_tree (details mismatch_md) details_extractor_visit
      fatal_details_damage_visit [] = Inr [(1, mismatch_details)]"
    by (simp add: mismatch_md_def details_extractor_visit_def)
  have p: "pass1_loop mismatch_md mapping_set_init [(1, mismatch_details)]
      = Inr (mapping_set_init[2 := True, 4 := True])"
    by (simp add: pass1_def mismatch_md_def mapping_def mapping_pass1_visit_def tracker_eval)
  have x: "count_exclusives mismatch_md (mapping_set_init[2 := True, 4 := True]) 1
      = Inr (2, mapping_set_init[2 := True, 4 := True])"
    by (simp add: count_exclusives_def mismatch_md_def mapping_def mapping_pass2_visit_def
        tracker_eval)
  have f: "data_block_size mismatch_md = 128" "mapped_blocks mismatch_details = 1"
    by (simp_all add: mismatch_md_def mismatch_details_def)
  have r: "report_loop mismatch_md block_fields True (mapping_set_init[2 := True, 4 := True])
       [(1, mismatch_details)]
     = Inr [[Number 1, Number 1, Number 2, Number 18446744073709551615]]"
    by (simp add: x block_fields_def f)
  have n: "pass1_needed (field_list block_fields)" "\<not> headers block_fields"
    by (simp_all add: block_fields_def)
  have l: "ls_impl mismatch_md block_fields
       = Inr [[Number 1, Number 1, Number 2, Number 18446744073709551615]]"
    unfolding ls_impl_def ls_body_def
    by (simp only: n c p r sum.case if_True if_False append_Nil)
  have d: "length (device_blocks mismatch_md 1) = 2"
    by (simp add: device_blocks_def mismatch_md_def mapping_def)
  from l d f show ?thesis by (simp add: mismatch_md_def)
qed

section \<open>The exclusive counts of the report\<close>

lemma classify_exclusive: "(classify n = EXCLUSIVE) = (n = 1)"
  using classify_iff [of n] by simp

lemma walk_pass2_tracks:
  assumes "damage_free es" and "list_all safe (leaf_blocks es)" and "tracks t cnt"
  shows "\<exists>t'. walk_mapping_tree es mapping_pass2_visit dv (t, n)
              = Inr (t', n + of_nat (length (filter (\<lambda>b. cnt b = 1) (leaf_blocks es))))
           \<and> tracks t' cnt"
  using assms
proof (induction es arbitrary: t n)
  case Nil
  then show ?case by simp
next
  case (Cons e es)
  show ?case
  proof (cases e)
    case (Mapping_damage d)
    with Cons.prems show ?thesis by simp
  next
    case (Mapping_leaf path bt)
    with Cons.prems have df: "damage_free es" and sf: "list_all safe (leaf_blocks es)"
      and b: "safe (block bt)"
      by simp_all
    from get_state_tracks [OF Cons.prems(3) b] obtain u where
      g: "get_state t (block bt) = Inr (classify (cnt (block bt)), u)" and u: "tracks u cnt"
      by blast
    let ?n = "if cnt (block bt) = 1 then n + 1 else n"
    have v: "mapping_pass2_visit path bt (t, n) = Inr (u, ?n)"
      using g by (simp add: mapping_pass2_visit_def [of path bt "(t, n)"] classify_exclusive)
    from Cons.IH [OF df sf u, of ?n] obtain t' where
      w: "walk_mapping_tree es mapping_pass2_visit dv (u, ?n)
            = Inr (t', ?n + of_nat (length (filter (\<lambda>b. cnt b = 1) (leaf_blocks es))))"
      and t': "tracks t' cnt"
      by blast
    have "walk_mapping_tree (e # es) mapping_pass2_visit dv (t, n)
        = Inr (t', n + of_nat (length (filter (\<lambda>b. cnt b = 1) (leaf_blocks (e # es)))))"
      using v w by (simp add: Mapping_leaf)
    with t' show ?thesis by blast
  qed
qed

lemma count_exclusives_tracks:
  assumes "walkable md dev" and "tracks t cnt"
  shows "\<exists>t'. count_exclusives md t dev
              = Inr (of_nat (length (filter (\<lambda>b. cnt b = 1) (device_blocks md dev))), t')
           \<and> tracks t' cnt"
proof (cases "mappings_top_level md dev")
  case None
  with assms(1) show ?thesis by (simp add: walkable_def device_fault_def)
next
  case (Some r)
  with assms(1) have "damage_free (single_mapping_tree md r)"
    and "list_all safe (leaf_blocks (single_mapping_tree md r))"
    by (simp_all add: walkable_def device_fault_def device_blocks_def split: if_splits)
  from walk_pass2_tracks [OF this assms(2), of fatal_mapping_damage_visit 0] Some show ?thesis
    by (auto simp: count_exclusives_def device_blocks_def)
qed

lemma report_loop_tracks:
  assumes "\<forall>dev\<in>fst ` set m. walkable md dev" and "tracks t cnt"
  shows "report_loop md fl True t m =
           Inr (map (\<lambda>(dev, dd). device_row md fl dev dd
                  (of_nat (length (filter (\<lambda>b. cnt b = 1) (device_blocks md dev))))) m)"
  using assms
proof (induction m arbitrary: t)
  case Nil
  then show ?case by simp
next
  case (Cons a m)
  obtain dev dd where a: "a = (dev, dd)" by (cases a)
  from Cons.prems(1) have w: "walkable md dev" and rest: "\<forall>dev\<in>fst ` set m. walkable md dev"
    by (simp_all add: a)
  from count_exclusives_tracks [OF w Cons.prems(2)] obtain t' where
    c: "count_exclusives md t dev
          = Inr (of_nat (length (filter (\<lambda>b. cnt b = 1) (device_blocks md dev))), t')"
    and t': "tracks t' cnt"
    by blast
  from Cons.IH [OF rest t'] c show ?case
    by (simp add: a device_row_def)
qed

lemma ls_body_counts:
  assumes w: "walk_device_tree (details md) details_extractor_visit fatal_details_damage_visit []
                = Inr m"
    and ok: "\<forall>dev\<in>fst ` set m. walkable md dev"
  shows "ls_body md fl True =
           Inr (header_rows fl @
                map (\<lambda>(dev, dd). device_row md fl dev dd (exclusive_blocks md m dev)) m)"
proof -
  from pass1_loop_tracks [OF ok tracks_init] obtain t where
    l: "pass1_loop md mapping_set_init m = Inr t" and t: "tracks t (\<lambda>c. references md m c)"
    by auto
  from report_loop_tracks [OF ok t, of fl]
  have "report_loop md fl True t m =
      Inr (map (\<lambda>(dev, dd). device_row md fl dev dd (exclusive_blocks md m dev)) m)"
    by (simp add: exclusive_blocks_def)
  with w l show ?thesis by (simp add: ls_body_def header_rows_def)
qed

text \<open>
  Claim C6: \<^verbatim>\<open>pass1_needed\<close> holds exactly when the field list has one of the eight
  exclusive or shared fields, and \<^verbatim>\<open>ls_\<close> runs the two loops over the mapping trees
  exactly when it holds. When it does not hold, the report is computed from the device
  tree and the block size alone, and it is the report that the same run with both
  passes forced would give, whenever that run gives one. In every run a cell of the
  column \<open>MAPPED_BLOCKS\<close> is the mapped-block count of the device details, whatever
  the exclusive count. When it holds, both passes have run over every device: on devices
  that can be walked the exclusive count of each row is the number of the device's
  mapping entries whose block has exactly one reference in the whole map, and a device
  without root or with a damaged mapping tree leaves the run without report. When it
  does not hold and the devices can be walked, the run with both passes forced returns,
  and returns the report of the run that skips them.
\<close>

theorem passes_run_iff_exclusivity_requested:
  "(pass1_needed (field_list fl) \<longleftrightarrow> (\<exists>f\<in>set (field_list fl). f \<in> exclusivity_fields))
   \<and> ls_impl md fl = ls_body md fl (pass1_needed (field_list fl))
   \<and> (\<not> pass1_needed (field_list fl) \<longrightarrow>
        ls_impl md fl =
          (case walk_device_tree (details md) details_extractor_visit
                  fatal_details_damage_visit [] of
             Inl e \<Rightarrow> Inl e
           | Inr m \<Rightarrow> Inr (header_rows fl @ map (\<lambda>(dev, dd). device_row md fl dev dd 0) m))
        \<and> (\<forall>rows. ls_body md fl True = Inr rows \<longrightarrow> ls_impl md fl = Inr rows))
   \<and> (\<forall>k<length (field_list fl). field_list fl ! k = MAPPED_BLOCKS \<longrightarrow>
         (\<forall>dev dd e. device_row md fl dev dd e ! k = Number (mapped_blocks dd)))
   \<and> (pass1_needed (field_list fl) \<longrightarrow>
        (\<forall>m. walk_device_tree (details md) details_extractor_visit
                 fatal_details_damage_visit [] = Inr m
              \<and> (\<forall>dev\<in>fst ` set m. walkable md dev) \<longrightarrow>
              ls_impl md fl =
                Inr (header_rows fl @
                     map (\<lambda>(dev, dd). device_row md fl dev dd (exclusive_blocks md m dev)) m))
        \<and> ((\<exists>dev\<in>set (device_ids (details md)).
               mappings_top_level md dev = None
             \<or> (\<exists>root d. mappings_top_level md dev = Some root
                   \<and> Mapping_damage d \<in> set (single_mapping_tree md root))) \<longrightarrow>
            (\<forall>rows. ls_impl md fl \<noteq> Inr rows)))
   \<and> (\<not> pass1_needed (field_list fl) \<longrightarrow>
        (\<forall>m. walk_device_tree (details md) details_extractor_visit
                 fatal_details_damage_visit [] = Inr m
              \<and> (\<forall>dev\<in>fst ` set m. walkable md dev) \<longrightarrow>
              ls_body md fl True = ls_impl md fl))"
proof -
  have 1: "pass1_needed (field_list fl) \<longleftrightarrow> (\<exists>f\<in>set (field_list fl). f \<in> exclusivity_fields)"
    by (rule pass1_needed_iff)
  have 2: "ls_impl md fl = ls_body md fl (pass1_needed (field_list fl))"
    by (rule ls_impl_def)
  have 3: "ls_impl md fl =
          (case walk_device_tree (details md) details_extractor_visit
                  fatal_details_damage_visit [] of
             Inl e \<Rightarrow> Inl e
           | Inr m \<Rightarrow> Inr (header_rows fl @ map (\<lambda>(dev, dd). device_row md fl dev dd 0) m))"
    if "\<not> pass1_needed (field_list fl)"
    using that by (simp add: ls_impl_def ls_body_skipped)
  have 4: "ls_impl md fl = Inr rows"
    if n: "\<not> pass1_needed (field_list fl)" and r: "ls_body md fl True = Inr rows" for rows
  proof -
    from ls_body_Inr [OF r] obtain m t rows' where
      w: "walk_device_tree (details md) details_extractor_visit fatal_details_damage_visit []
            = Inr m"
      and l: "report_loop md fl True t m = Inr rows'"
      and rows: "rows = header_rows fl @ rows'"
      by blast
    from report_loop_forced [OF n l]
    have "rows' = map (\<lambda>(dev, dd). device_row md fl dev dd 0) m" .
    with w rows n show ?thesis
      by (simp add: ls_impl_def ls_body_skipped)
  qed
  have 5: "device_row md fl dev dd e ! k = Number (mapped_blocks dd)"
    if "k < length (field_list fl)" and "field_list fl ! k = MAPPED_BLOCKS" for k dev dd e
    using that by (simp add: device_row_nth)
  have 6: "ls_impl md fl =
             Inr (header_rows fl @
                  map (\<lambda>(dev, dd). device_row md fl dev dd (exclusive_blocks md m dev)) m)"
    if "pass1_needed (field_list fl)"
      and "walk_device_tree (details md) details_extractor_visit
                 fatal_details_damage_visit [] = Inr m"
      and "\<forall>dev\<in>fst ` set m. walkable md dev" for m
    using ls_body_counts [OF that(2,3), of fl] that(1) by (simp add: ls_impl_def)
  have 7: "ls_impl md fl \<noteq> Inr rows"
    if "pass1_needed (field_list fl)"
      and "\<exists>dev\<in>set (device_ids (details md)).
               mappings_top_level md dev = None
             \<or> (\<exists>root d. mappings_top_level md dev = Some root
                   \<and> Mapping_damage d \<in> set (single_mapping_tree md root))" for rows
    using that by (intro damage_no_report) blast
  have 8: "ls_body md fl True = ls_impl md fl"
    if n: "\<not> pass1_needed (field_list fl)"
      and w: "walk_device_tree (details md) details_extractor_visit
                 fatal_details_damage_visit [] = Inr m"
      and ok: "\<forall>dev\<in>fst ` set m. walkable md dev" for m
  proof -
    have eq: "(\<lambda>(dev, dd). device_row md fl dev dd (exclusive_blocks md m dev))
        = (\<lambda>(dev, dd). device_row md fl dev dd 0)"
    proof (rule ext)
      fix x :: "block_address \<times> device_details"
      obtain dev dd where x: "x = (dev, dd)" by (cases x)
      show "(case x of (dev, dd) \<Rightarrow> device_row md fl dev dd (exclusive_blocks md m dev))
          = (case x of (dev, dd) \<Rightarrow> device_row md fl dev dd 0)"
        unfolding x
        by (simp only: prod.case device_row_plain [OF n, of md dev dd "exclusive_blocks md m dev"])
    qed
    from 3 [OF n] w have a: "ls_impl md fl =
        Inr (header_rows fl @ map (\<lambda>(dev, dd). device_row md fl dev dd 0) m)"
      by simp
    from ls_body_counts [OF w ok, of fl] have b: "ls_body md fl True =
        Inr (header_rows fl @ map (\<lambda>(dev, dd). device_row md fl dev dd 0) m)"
      by (simp only: eq)
    from a b show ?thesis by (simp only:)
  qed
  have c1: "(\<not> pass1_needed (field_list fl) \<longrightarrow>
        ls_impl md fl =
          (case walk_device_tree (details md) details_extractor_visit
                  fatal_details_damage_visit [] of
             Inl e \<Rightarrow> Inl e
           | Inr m \<Rightarrow> Inr (header_rows fl @ map (\<lambda>(dev, dd). device_row md fl dev dd 0) m))
        \<and> (\<forall>rows. ls_body md fl True = Inr rows \<longrightarrow> ls_impl md fl = Inr rows))"
    using 3 4 by blast
  have c2: "(\<forall>k<length (field_list fl). field_list fl ! k = MAPPED_BLOCKS \<longrightarrow>
         (\<forall>dev dd e. device_row md fl dev dd e ! k = Number (mapped_blocks dd)))"
    using 5 by blast
  have c3: "(pass1_needed (field_list fl) \<longrightarrow>
        (\<forall>m. walk_device_tree (details md) details_extractor_visit
                 fatal_details_damage_visit [] = Inr m
              \<and> (\<forall>dev\<in>fst ` set m. walkable md dev) \<longrightarrow>
              ls_impl md fl =
                Inr (header_rows fl @
                     map (\<lambda>(dev, dd). device_row md fl dev dd (exclusive_blocks md m dev)) m))
        \<and> ((\<exists>dev\<in>set (device_ids (details md)).
               mappings_top_level md dev = None
             \<or> (\<exists>root d. mappings_top_level md dev = Some root
                   \<and> Mapping_damage d \<in> set (single_mapping_tree md root))) \<longrightarrow>
            (\<forall>rows. ls_impl md fl \<noteq> Inr rows)))"
    using 6 7 by blast
  have c4: "(\<not> pass1_needed (field_list fl) \<longrightarrow>
        (\<forall>m. walk_device_tree (details md) details_extractor_visit
                 fatal_details_damage_visit [] = Inr m
              \<and> (\<forall>dev\<in>fst ` set m. walkable md dev) \<longrightarrow>
              ls_body md fl True = ls_impl md fl))"
    using 8 by blast
  from 1 2 c1 c2 c3 c4 show ?thesis by (intro conjI)
qed

lemma example_exclusive_blocks:
  "exclusive_blocks example_md [(1, example_details_A), (2, example_details_B)] 1 = 2"
  "exclusive_blocks example_md [(1, example_details_A), (2, example_details_B)] 2 = 1"
  by (simp_all add: exclusive_blocks_def references_def visited_blocks_def device_blocks_def
      example_md_def mapping_def)

theorem passes_run_iff_exclusivity_requested_witness:
  "\<not> pass1_needed (field_list mapped_only)
   \<and> ls_body example_md mapped_only True =
       Inr [[Text ''DEV'', Text ''MAPPED_BLOCKS''], [Number 1, Number 3], [Number 2, Number 2]]
   \<and> ls_impl example_md mapped_only =
       Inr [[Text ''DEV'', Text ''MAPPED_BLOCKS''], [Number 1, Number 3], [Number 2, Number 2]]
   \<and> pass1_needed (field_list block_fields)
   \<and> walk_device_tree (details example_md) details_extractor_visit fatal_details_damage_visit []
       = Inr [(1, example_details_A), (2, example_details_B)]
   \<and> walkable example_md 1 \<and> walkable example_md 2
   \<and> exclusive_blocks example_md [(1, example_details_A), (2, example_details_B)] 1 = 2
   \<and> exclusive_blocks example_md [(1, example_details_A), (2, example_details_B)] 2 = 1
   \<and> ls_impl example_md block_fields =
       Inr [[Number 1, Number 3, Number 2, Number 1], [Number 2, Number 2, Number 1, Number 1]]
   \<and> mappings_top_level damaged_md 2 = Some 200
   \<and> Mapping_damage (missing_mappings ''missing mappings of device 2'')
       \<in> set (single_mapping_tree damaged_md 200)
   \<and> (\<exists>e. ls_impl damaged_md block_fields = Inl e)"
proof -
  have n: "\<not> pass1_needed (field_list mapped_only)" by (simp add: mapped_only_def)
  have y: "pass1_needed (field_list block_fields)" by (simp add: block_fields_def)
  have w: "\<forall>dev\<in>fst ` set [(1 :: block_address, example_details_A), (2, example_details_B)].
             walkable example_md dev"
    by (simp add: example_walkable)
  have h: "header_rows block_fields = []" by (simp add: header_rows_def block_fields_def)
  have r: "device_row example_md block_fields 1 example_details_A 2
             = [Number 1, Number 3, Number 2, Number 1]"
    "device_row example_md block_fields 2 example_details_B 1
             = [Number 2, Number 2, Number 1, Number 1]"
    by (simp_all add: device_row_def block_fields_def example_fields)
  have d: "\<exists>dev\<in>set (device_ids (details damaged_md)).
               mappings_top_level damaged_md dev = None
             \<or> (\<exists>root d. mappings_top_level damaged_md dev = Some root
                   \<and> Mapping_damage d \<in> set (single_mapping_tree damaged_md root))"
    using damaged_md_damage damaged_md_facts(4) by blast
  note A = passes_run_iff_exclusivity_requested [of mapped_only example_md]
  note B = passes_run_iff_exclusivity_requested [of block_fields example_md]
  note C = passes_run_iff_exclusivity_requested [of block_fields damaged_md]
  from A n example_forced
  have 1: "ls_impl example_md mapped_only =
       Inr [[Text ''DEV'', Text ''MAPPED_BLOCKS''], [Number 1, Number 3], [Number 2, Number 2]]"
    by blast
  from B y example_catalogue w
  have "ls_impl example_md block_fields =
      Inr (header_rows block_fields @
           map (\<lambda>(dev, dd). device_row example_md block_fields dev dd
                  (exclusive_blocks example_md [(1, example_details_A), (2, example_details_B)] dev))
             [(1, example_details_A), (2, example_details_B)])"
    by blast
  then have 2: "ls_impl example_md block_fields =
       Inr [[Number 1, Number 3, Number 2, Number 1], [Number 2, Number 2, Number 1, Number 1]]"
    by (simp add: h example_exclusive_blocks r)
  from C y d have "\<forall>rows. ls_impl damaged_md block_fields \<noteq> Inr rows" by blast
  then have 3: "\<exists>e. ls_impl damaged_md block_fields = Inl e"
    by (cases "ls_impl damaged_md block_fields") auto
  from n y 1 2 3 example_forced example_catalogue example_walkable example_exclusive_blocks
    damaged_md_damage(1) damaged_md_facts(4)
  show ?thesis by simp
qed

section \<open>The state query\<close>

lemma inc_bits_cong:
  assumes "bit_at t = bit_at u" and "inc t c = Inr t1" and "inc u c = Inr u1"
  shows "bit_at t1 = bit_at u1"
  using inc_Inr [OF assms(2)] inc_Inr [OF assms(3)] assms(1) by simp

lemma get_state_cong:
  assumes "bit_at t = bit_at u" and "get_state t c = Inr (s1, t1)" and "get_state u c = Inr (s2, u1)"
  shows "s1 = s2"
  using get_state_Inr [OF assms(2)] get_state_Inr [OF assms(3)] state_of_cong [OF assms(1)]
  by simp

lemma run_ops_bits:
  "bit_at t = bit_at u \<Longrightarrow> run_ops t ops = Inr t1 \<Longrightarrow> run_ops u (increments_only ops) = Inr u1
     \<Longrightarrow> bit_at t1 = bit_at u1"
proof (induction ops arbitrary: t u)
  case Nil
  then show ?case by simp
next
  case (Cons x ops)
  show ?case
  proof (cases x)
    case (Increment b)
    from Cons.prems(2) obtain ta where a: "inc t b = Inr ta" and ra: "run_ops ta ops = Inr t1"
      by (auto simp: Increment split: sum.splits)
    from Cons.prems(3) obtain ua where b: "inc u b = Inr ua"
      and rb: "run_ops ua (increments_only ops) = Inr u1"
      by (auto simp: Increment split: sum.splits)
    from inc_bits_cong [OF Cons.prems(1) a b] have "bit_at ta = bit_at ua" .
    from Cons.IH [OF this ra rb] show ?thesis .
  next
    case (State_query b)
    from Cons.prems(2) obtain s ta where a: "get_state t b = Inr (s, ta)"
      and ra: "run_ops ta ops = Inr t1"
      by (auto simp: State_query split: sum.splits)
    from Cons.prems(3) have rb: "run_ops u (increments_only ops) = Inr u1"
      by (simp add: State_query)
    from get_state_Inr [OF a] Cons.prems(1) have "bit_at ta = bit_at u" by simp
    from Cons.IH [OF this ra rb] show ?thesis .
  qed
qed

lemma run_ops_total:
  "capacity_ok t \<Longrightarrow> list_all safe (map op_block ops) \<Longrightarrow>
     \<exists>t1. run_ops t ops = Inr t1 \<and> capacity_ok t1"
proof (induction ops arbitrary: t)
  case Nil
  then show ?case by simp
next
  case (Cons x ops)
  show ?case
  proof (cases x)
    case (Increment b)
    with Cons.prems have "safe b" and rest: "list_all safe (map op_block ops)" by simp_all
    from inc_total [OF Cons.prems(1) \<open>safe b\<close>] obtain ta where
      "inc t b = Inr ta" "capacity_ok ta" by blast
    with Cons.IH [OF _ rest, of ta] show ?thesis by (simp add: Increment)
  next
    case (State_query b)
    with Cons.prems have "safe b" and rest: "list_all safe (map op_block ops)" by simp_all
    from get_state_total [OF Cons.prems(1) \<open>safe b\<close>] obtain s ta where
      "get_state t b = Inr (s, ta)" "capacity_ok ta" by blast
    with Cons.IH [OF _ rest, of ta] show ?thesis by (simp add: State_query)
  qed
qed

lemma increments_only_safe:
  "list_all safe (map op_block ops) \<Longrightarrow> list_all safe (map op_block (increments_only ops))"
  by (induction ops rule: increments_only.induct) simp_all

subsection \<open>The second pass reads, it does not grow\<close>

lemma even_unat_double_32: "even (unat (w * 2 :: 32 word))"
proof -
  have "unat (w * 2) = unat w * 2 mod 2 ^ 32" by (simp add: unat_word_ariths)
  moreover have "(2 :: nat) dvd 2 ^ 32" by simp
  ultimately show ?thesis by (simp only: dvd_mod_iff) simp
qed

lemma even_unat_double_64: "even (unat (w * 2 :: 64 word))"
proof -
  have "unat (w * 2) = unat w * 2 mod 2 ^ 64" by (simp add: unat_word_ariths)
  moreover have "(2 :: nat) dvd 2 ^ 64" by simp
  ultimately show ?thesis by (simp only: dvd_mod_iff) simp
qed

lemma loop_result_even:
  assumes "ensure_size_loop n i = Some r"
  shows "even (unat n) \<longrightarrow> even (unat r)"
proof (rule ensure_size_loop.raw_induct
    [where P = "\<lambda>n i r. even (unat n) \<longrightarrow> even (unat r)", OF _ assms])
  fix loop :: "32 word \<Rightarrow> 64 word \<Rightarrow> 32 word option" and n i r
  assume IH: "\<And>n i r. loop n i = Some r \<Longrightarrow> even (unat n) \<longrightarrow> even (unat r)"
    and step: "(if ucast n < i then loop (n * 2) i else Some n) = Some r"
  have "even (unat (n * 2))" by (rule even_unat_double_32)
  with IH step show "even (unat n) \<longrightarrow> even (unat r)"
    by (auto split: if_splits)
qed

lemma ensure_size_even:
  assumes "ensure_size bits i = Inr bits'" and "even (length bits)"
  shows "even (length bits')"
proof (cases "length bits \<le> unat i")
  case False
  with assms show ?thesis by (simp add: ensure_size_def)
next
  case True
  show ?thesis
  proof (cases "ensure_size_loop (of_nat (length bits * 2)) i")
    case None
    with True assms show ?thesis unfolding ensure_size_def by simp
  next
    case (Some r)
    with True assms have b: "bits' = resize (unat r) bits" unfolding ensure_size_def by simp
    from Some have ge: "unat i \<le> unat r" by (rule loop_result_ge)
    have "(of_nat (length bits * 2) :: 32 word) = of_nat (length bits) * 2" by simp
    then have "even (unat (of_nat (length bits * 2) :: 32 word))"
      by (simp only: even_unat_double_32)
    with loop_result_even [OF Some] have "even (unat r)" by simp
    moreover have "length bits' = unat r" using b True ge by (simp add: resize_def)
    ultimately show ?thesis by simp
  qed
qed

lemma get_bit_even:
  assumes "get_bit bits i = Inr (v, bits')" and "even (length bits)"
  shows "even (length bits')"
proof (cases "ensure_size bits i")
  case (Inl x)
  with assms show ?thesis by (simp add: get_bit_def)
next
  case (Inr e)
  with assms(1) have "bits' = e" by (auto simp: get_bit_def split: if_splits)
  with ensure_size_even [OF Inr assms(2)] show ?thesis by simp
qed

lemma set_bit_ms_even:
  assumes "set_bit_ms bits i v = Inr bits'" and "even (length bits)"
  shows "even (length bits')"
proof (cases "ensure_size bits i")
  case (Inl x)
  with assms show ?thesis by (simp add: set_bit_ms_def)
next
  case (Inr e)
  with assms(1) have "length bits' = length e" by (auto simp: set_bit_ms_def split: if_splits)
  with ensure_size_even [OF Inr assms(2)] show ?thesis by simp
qed

lemma inc_queried:
  assumes "inc t b = Inr t'" and "even (length t)"
  shows "queried t' b \<and> length t \<le> length t'"
proof (cases "get_bit t (b * 2)")
  case (Inl x)
  with assms show ?thesis by (simp add: inc_def)
next
  case (Inr p)
  obtain seen e where p: "p = (seen, e)" by (cases p)
  note G = get_bit_Inr [OF Inr [unfolded p]]
  note E = get_bit_even [OF Inr [unfolded p] assms(2)]
  from assms(1) Inr p
  have "set_bit_ms e (if seen then b * 2 + 1 else b * 2) True = Inr t'"
    by (simp add: inc_def split: if_splits)
  from set_bit_ms_Inr [OF this] set_bit_ms_even [OF this E] G show ?thesis
    by (simp add: queried_def)
qed

lemma queried_odd_index:
  assumes "queried t b"
  shows "unat (b * 2 + 1) < length t"
proof -
  from assms have ev: "even (length t)" and lt: "unat (b * 2) < length t"
    by (simp_all add: queried_def)
  have e2: "even (unat (b * 2))" by (rule even_unat_double_64)
  have "unat (b * 2 + 1) = (unat (b * 2) + 1) mod 2 ^ 64"
    by (simp add: unat_word_ariths)
  then have le: "unat (b * 2 + 1) \<le> unat (b * 2) + 1"
    by (simp only: mod_less_eq_dividend)
  have "unat (b * 2) + 1 \<noteq> length t"
  proof
    assume "unat (b * 2) + 1 = length t"
    with ev have "even (Suc (unat (b * 2)))" by simp
    with e2 show False by simp
  qed
  with lt have "unat (b * 2) + 1 < length t" by simp
  with le show ?thesis by simp
qed

lemma get_state_queried:
  assumes "queried t b"
  shows "get_state t b = Inr (state_of t b, t)"
proof -
  from assms have 0: "unat (b * 2) < length t" by (simp add: queried_def)
  note 1 = queried_odd_index [OF assms]
  show ?thesis
    by (simp add: get_state_def get_bit_within [OF 0] get_bit_within [OF 1] state_of_def
        bit_at_def 0 1)
qed

lemma queried_grow: "queried t b \<Longrightarrow> even (length t') \<Longrightarrow> length t \<le> length t' \<Longrightarrow> queried t' b"
  by (simp add: queried_def)

lemma walk_pass1_queried:
  "walk_mapping_tree es mapping_pass1_visit dv t = Inr t' \<Longrightarrow> even (length t) \<Longrightarrow>
     even (length t') \<and> length t \<le> length t' \<and> (\<forall>b\<in>set (leaf_blocks es). queried t' b)"
proof (induction es arbitrary: t)
  case Nil
  then show ?case by simp
next
  case (Cons e es)
  show ?case
  proof (cases e)
    case (Mapping_damage d)
    with Cons.prems have "walk_mapping_tree es mapping_pass1_visit dv t = Inr t'"
      by (simp split: sum.splits)
    from Cons.IH [OF this Cons.prems(2)] show ?thesis by (simp add: Mapping_damage)
  next
    case (Mapping_leaf path bt)
    from Cons.prems(1) obtain t1 where i: "inc t (block bt) = Inr t1"
      and w: "walk_mapping_tree es mapping_pass1_visit dv t1 = Inr t'"
      by (auto simp: Mapping_leaf mapping_pass1_visit_def [of path bt t] split: sum.splits)
    from inc_queried [OF i Cons.prems(2)] have q: "queried t1 (block bt)"
      and le: "length t \<le> length t1" by simp_all
    from q have ev: "even (length t1)" by (simp add: queried_def)
    from Cons.IH [OF w ev] have 1: "even (length t')" and 2: "length t1 \<le> length t'"
      and 3: "\<forall>b\<in>set (leaf_blocks es). queried t' b"
      by simp_all
    from queried_grow [OF q 1 2] 1 2 3 le show ?thesis by (simp add: Mapping_leaf)
  qed
qed

lemma pass1_queried:
  assumes "pass1 md t dev = Inr t'" and "even (length t)"
  shows "even (length t') \<and> length t \<le> length t'
       \<and> (\<forall>b\<in>set (device_blocks md dev). queried t' b)"
proof (cases "mappings_top_level md dev")
  case None
  with assms show ?thesis by (simp add: pass1_def)
next
  case (Some r)
  with assms(1) have "walk_mapping_tree (single_mapping_tree md r) mapping_pass1_visit
      fatal_mapping_damage_visit t = Inr t'"
    by (simp add: pass1_def)
  from walk_pass1_queried [OF this assms(2)] Some show ?thesis
    by (simp add: device_blocks_def)
qed

lemma pass1_loop_queried:
  "pass1_loop md t m = Inr t' \<Longrightarrow> even (length t) \<Longrightarrow>
     even (length t') \<and> length t \<le> length t'
     \<and> (\<forall>dev\<in>fst ` set m. \<forall>b\<in>set (device_blocks md dev). queried t' b)"
proof (induction m arbitrary: t)
  case Nil
  then show ?case by simp
next
  case (Cons a m)
  obtain dev dd where a: "a = (dev, dd)" by (cases a)
  from Cons.prems(1) obtain t1 where p: "pass1 md t dev = Inr t1"
    and l: "pass1_loop md t1 m = Inr t'"
    by (auto simp: a split: sum.splits)
  from pass1_queried [OF p Cons.prems(2)] have ev: "even (length t1)"
    and le: "length t \<le> length t1"
    and q: "\<forall>b\<in>set (device_blocks md dev). queried t1 b"
    by simp_all
  from Cons.IH [OF l ev] have 1: "even (length t')" and 2: "length t1 \<le> length t'"
    and 3: "\<forall>dev\<in>fst ` set m. \<forall>b\<in>set (device_blocks md dev). queried t' b"
    by simp_all
  from q 1 2 have "\<forall>b\<in>set (device_blocks md dev). queried t' b"
    by (auto intro: queried_grow)
  with 1 2 3 le show ?case by (simp add: a)
qed

lemma walk_pass2_reads:
  "damage_free es \<Longrightarrow> \<forall>b\<in>set (leaf_blocks es). queried t b \<Longrightarrow>
     \<exists>n'. walk_mapping_tree es mapping_pass2_visit dv (t, n) = Inr (t, n')"
proof (induction es arbitrary: n)
  case Nil
  then show ?case by simp
next
  case (Cons e es)
  show ?case
  proof (cases e)
    case (Mapping_damage d)
    with Cons.prems show ?thesis by simp
  next
    case (Mapping_leaf path bt)
    with Cons.prems have df: "damage_free es" and q: "queried t (block bt)"
      and rest: "\<forall>b\<in>set (leaf_blocks es). queried t b"
      by simp_all
    let ?n = "if state_of t (block bt) = EXCLUSIVE then n + 1 else n"
    have v: "mapping_pass2_visit path bt (t, n) = Inr (t, ?n)"
      by (simp add: mapping_pass2_visit_def [of path bt "(t, n)"] get_state_queried [OF q])
    from Cons.IH [OF df rest, of ?n] v show ?thesis by (simp add: Mapping_leaf)
  qed
qed

lemma count_exclusives_reads:
  assumes "pass1_loop md mapping_set_init m = Inr t" and "dev \<in> fst ` set m"
  shows "\<exists>e. count_exclusives md t dev = Inr (e, t)"
proof -
  have "even (length mapping_set_init)" by (simp add: mapping_set_init_def)
  from pass1_loop_queried [OF assms(1) this] assms(2)
  have q: "\<forall>b\<in>set (device_blocks md dev). queried t b" by blast
  from pass1_loop_Inr [OF assms(1)] assms(2) have "device_fault md dev = None" by auto
  then obtain r where r: "mappings_top_level md dev = Some r"
    and df: "damage_free (single_mapping_tree md r)"
    by (auto simp: device_fault_def split: option.splits if_splits)
  from q r have "\<forall>b\<in>set (leaf_blocks (single_mapping_tree md r)). queried t b"
    by (simp add: device_blocks_def)
  from walk_pass2_reads [OF df this, of fatal_mapping_damage_visit 0] r show ?thesis
    by (auto simp: count_exclusives_def)
qed

lemma safe_odd: "odd (unat b) \<Longrightarrow> unat b < 10240 * 2 ^ 17 \<Longrightarrow> safe b"
proof -
  assume o: "odd (unat b)" and lt: "unat b < 10240 * 2 ^ 17"
  have "unat b \<noteq> 10240 * 2 ^ j" for j
  proof
    assume "unat b = 10240 * 2 ^ j"
    then have "even (unat b)" by simp
    with o show False by simp
  qed
  with lt show ?thesis by (simp add: safe_def)
qed

text \<open>
  Claim C10: whenever \<^verbatim>\<open>get_state\<close> returns, on any set and any block, also one
  beyond the size of the vector, it returns the state of the block and leaves the state
  of every block as it was, so that any later query gives what it would have given
  before. It returns on every safe block. A sequence of increments with state queries
  between them therefore ends, when both return, in a set with the same state for every
  block as the increments alone, and both return when the blocks are safe. In the
  program the queries are those of \<^verbatim>\<open>count_exclusives\<close> after the first loop, over
  the blocks the first loop has visited: each of them returns and leaves the vector
  itself unchanged.
\<close>

theorem state_query_is_pure:
  "(get_state t b = Inr (s, u) \<longrightarrow>
       s = state_of t b \<and> (\<forall>c. state_of u c = state_of t c)
     \<and> (\<forall>c s1 u1 s2 u2. get_state t c = Inr (s1, u1) \<and> get_state u c = Inr (s2, u2)
           \<longrightarrow> s1 = s2))
   \<and> (capacity_ok t \<and> safe b \<longrightarrow> (\<exists>s u. get_state t b = Inr (s, u)))
   \<and> (run_ops t ops = Inr t1 \<and> run_ops t (increments_only ops) = Inr t2 \<longrightarrow>
       (\<forall>c. state_of t1 c = state_of t2 c)
     \<and> (\<forall>c s1 u1 s2 u2. get_state t1 c = Inr (s1, u1) \<and> get_state t2 c = Inr (s2, u2)
           \<longrightarrow> s1 = s2))
   \<and> (capacity_ok t \<and> list_all safe (map op_block ops) \<longrightarrow>
       (\<exists>t1 t2. run_ops t ops = Inr t1 \<and> run_ops t (increments_only ops) = Inr t2))
   \<and> (pass1_loop md mapping_set_init m = Inr p \<and> dev \<in> fst ` set m \<longrightarrow>
       (\<forall>c\<in>set (device_blocks md dev). get_state p c = Inr (state_of p c, p))
     \<and> (\<exists>e. count_exclusives md p dev = Inr (e, p)))"
proof -
  have 1: "s = state_of t b \<and> (\<forall>c. state_of u c = state_of t c)
     \<and> (\<forall>c s1 u1 s2 u2. get_state t c = Inr (s1, u1) \<and> get_state u c = Inr (s2, u2)
           \<longrightarrow> s1 = s2)"
    if g: "get_state t b = Inr (s, u)"
  proof -
    from get_state_Inr [OF g] have s: "s = state_of t b" and bits: "bit_at u = bit_at t"
      by simp_all
    have "\<forall>c. state_of u c = state_of t c" using state_of_cong [OF bits] by blast
    moreover have "s1 = s2"
      if "get_state t c = Inr (s1, u1)" and "get_state u c = Inr (s2, u2)" for c s1 u1 s2 u2
      using get_state_cong [OF bits [symmetric] that] .
    ultimately show ?thesis using s by blast
  qed
  have 2: "\<exists>s u. get_state t b = Inr (s, u)" if "capacity_ok t" and "safe b"
    using get_state_total [OF that] by blast
  have 3: "(\<forall>c. state_of t1 c = state_of t2 c)
     \<and> (\<forall>c s1 u1 s2 u2. get_state t1 c = Inr (s1, u1) \<and> get_state t2 c = Inr (s2, u2)
           \<longrightarrow> s1 = s2)"
    if r1: "run_ops t ops = Inr t1" and r2: "run_ops t (increments_only ops) = Inr t2"
  proof -
    from run_ops_bits [OF refl r1 r2] have bits: "bit_at t1 = bit_at t2" .
    have "\<forall>c. state_of t1 c = state_of t2 c" using state_of_cong [OF bits] by blast
    moreover have "s1 = s2"
      if "get_state t1 c = Inr (s1, u1)" and "get_state t2 c = Inr (s2, u2)" for c s1 u1 s2 u2
      using get_state_cong [OF bits that] .
    ultimately show ?thesis by blast
  qed
  have 4: "\<exists>t1 t2. run_ops t ops = Inr t1 \<and> run_ops t (increments_only ops) = Inr t2"
    if "capacity_ok t" and "list_all safe (map op_block ops)"
    using run_ops_total [OF that] run_ops_total [OF that(1) increments_only_safe [OF that(2)]]
    by blast
  have 5: "(\<forall>c\<in>set (device_blocks md dev). get_state p c = Inr (state_of p c, p))
     \<and> (\<exists>e. count_exclusives md p dev = Inr (e, p))"
    if l: "pass1_loop md mapping_set_init m = Inr p" and d: "dev \<in> fst ` set m"
  proof -
    have "even (length mapping_set_init)" by (simp add: mapping_set_init_def)
    from pass1_loop_queried [OF l this] d
    have "\<forall>c\<in>set (device_blocks md dev). queried p c" by blast
    then have "\<forall>c\<in>set (device_blocks md dev). get_state p c = Inr (state_of p c, p)"
      by (simp add: get_state_queried)
    with count_exclusives_reads [OF l d] show ?thesis by blast
  qed
  have a: "get_state t b = Inr (s, u) \<longrightarrow>
       s = state_of t b \<and> (\<forall>c. state_of u c = state_of t c)
     \<and> (\<forall>c s1 u1 s2 u2. get_state t c = Inr (s1, u1) \<and> get_state u c = Inr (s2, u2)
           \<longrightarrow> s1 = s2)"
    using 1 by (rule impI)
  have b: "capacity_ok t \<and> safe b \<longrightarrow> (\<exists>s u. get_state t b = Inr (s, u))"
    using 2 by simp
  have c: "run_ops t ops = Inr t1 \<and> run_ops t (increments_only ops) = Inr t2 \<longrightarrow>
       (\<forall>c. state_of t1 c = state_of t2 c)
     \<and> (\<forall>c s1 u1 s2 u2. get_state t1 c = Inr (s1, u1) \<and> get_state t2 c = Inr (s2, u2)
           \<longrightarrow> s1 = s2)"
    using 3 by (intro impI) (elim conjE)
  have d: "capacity_ok t \<and> list_all safe (map op_block ops) \<longrightarrow>
       (\<exists>t1 t2. run_ops t ops = Inr t1 \<and> run_ops t (increments_only ops) = Inr t2)"
    using 4 by (intro impI) (elim conjE)
  have e: "pass1_loop md mapping_set_init m = Inr p \<and> dev \<in> fst ` set m \<longrightarrow>
       (\<forall>c\<in>set (device_blocks md dev). get_state p c = Inr (state_of p c, p))
     \<and> (\<exists>e. count_exclusives md p dev = Inr (e, p))"
    using 5 by (intro impI) (elim conjE)
  from a b c d e show ?thesis by (intro conjI)
qed

lemma query_beyond_capacity:
  "get_state mapping_set_init 10241 = Inr (UNMAPPED, replicate 40960 False)"
proof -
  have "get_bit mapping_set_init (10241 * 2) = Inr (False, replicate 40960 False)"
    by (simp add: get_bit_def ensure_size_def mapping_set_init_def ensure_size_loop.simps
        resize_def flip: replicate_add)
  then show ?thesis by (simp add: get_state_def)
qed

lemma safe_10241: "safe 10241"
  by (rule safe_odd) simp_all

lemma run_with_query:
  "run_ops mapping_set_init [Increment 1, State_query 10241, Increment 1]
     = Inr ((replicate 40960 False)[2 := True, 3 := True])"
proof -
  have 1: "inc mapping_set_init 1 = Inr (mapping_set_init[2 := True])"
    by (simp add: tracker_eval)
  have r: "replicate 40960 False = replicate 10240 False @ replicate 30720 False"
    by (simp flip: replicate_add)
  have e: "(replicate 10240 False)[2 := True] @ replicate 30720 False
      = (replicate 40960 False)[2 := True]"
    by (simp add: r list_update_append)
  have "get_bit (mapping_set_init[2 := True]) (10241 * 2)
      = Inr (False, (replicate 10240 False)[2 := True] @ replicate 30720 False)"
    by (simp add: get_bit_def ensure_size_def mapping_set_init_def ensure_size_loop.simps
        resize_def nth_append)
  then have 2: "get_state (mapping_set_init[2 := True]) 10241
      = Inr (UNMAPPED, (replicate 40960 False)[2 := True])"
    by (simp add: get_state_def e)
  have 3: "inc ((replicate 40960 False)[2 := True]) 1
      = Inr ((replicate 40960 False)[2 := True, 3 := True])"
    by (simp add: inc_def get_bit_within set_bit_ms_within)
  show ?thesis by (simp add: 1 2 3)
qed

lemma run_without_query:
  "run_ops mapping_set_init [Increment 1, Increment 1] = Inr (mapping_set_init[2 := True, 3 := True])"
  by (simp add: tracker_eval)

theorem state_query_is_pure_witness:
  "get_state mapping_set_init 10241 = Inr (UNMAPPED, replicate 40960 False)
   \<and> state_of mapping_set_init 10241 = UNMAPPED
   \<and> state_of (replicate 40960 False) 1 = state_of mapping_set_init 1
   \<and> capacity_ok mapping_set_init \<and> safe 10241 \<and> safe 1
   \<and> run_ops mapping_set_init [Increment 1, State_query 10241, Increment 1]
       = Inr ((replicate 40960 False)[2 := True, 3 := True])
   \<and> increments_only [Increment 1, State_query 10241, Increment 1] = [Increment 1, Increment 1]
   \<and> run_ops mapping_set_init [Increment 1, Increment 1]
       = Inr (mapping_set_init[2 := True, 3 := True])
   \<and> state_of ((replicate 40960 False)[2 := True, 3 := True]) 1 = SHARED
   \<and> state_of (mapping_set_init[2 := True, 3 := True]) 1 = SHARED
   \<and> pass1_loop example_md mapping_set_init [(1, example_details_A), (2, example_details_B)]
       = Inr example_pass1
   \<and> get_state example_pass1 3 = Inr (SHARED, example_pass1)
   \<and> count_exclusives example_md example_pass1 1 = Inr (2, example_pass1)"
proof -
  note A = state_query_is_pure [where t = mapping_set_init and b = 10241 and s = UNMAPPED
      and u = "replicate 40960 False"
      and ops = "[Increment 1, State_query 10241, Increment 1]"
      and ?t1.0 = "(replicate 40960 False)[2 := True, 3 := True]"
      and ?t2.0 = "mapping_set_init[2 := True, 3 := True]"
      and md = example_md and m = "[(1, example_details_A), (2, example_details_B)]"
      and p = example_pass1 and dev = 1]
  have i: "increments_only [Increment 1, State_query 10241, Increment 1] = [Increment 1, Increment 1]"
    by simp
  have s: "safe 1" by (simp add: safe_small)
  have d: "(1 :: block_address) \<in> fst ` set [(1, example_details_A), (2, example_details_B)]"
    by simp
  have b: "3 \<in> set (device_blocks example_md 1)"
    by (simp add: device_blocks_def example_md_def mapping_def)
  have 1: "state_of mapping_set_init 10241 = UNMAPPED"
    using A query_beyond_capacity by simp
  have 2: "state_of (replicate 40960 False) 1 = state_of mapping_set_init 1"
    using A query_beyond_capacity by blast
  have 3: "state_of ((replicate 40960 False)[2 := True, 3 := True]) 1
         = state_of (mapping_set_init[2 := True, 3 := True]) 1"
    using A run_with_query run_without_query i by simp
  have 4: "state_of (mapping_set_init[2 := True, 3 := True]) 1 = SHARED"
    by (simp add: state_of_def bit_at_def mapping_set_init_def)
  have 5: "get_state example_pass1 3 = Inr (state_of example_pass1 3, example_pass1)"
    using A example_pass1_loop d b by blast
  have 6: "state_of example_pass1 3 = SHARED"
    by (simp add: state_of_def bit_at_def example_pass1_def mapping_set_init_def)
  from 1 2 3 4 5 6 query_beyond_capacity capacity_ok_init safe_10241 s run_with_query
    run_without_query i example_pass1_loop example_count_A
  show ?thesis by simp
qed

end
